theory Spec2Isabelle
  imports Main "HOL-Library.Word" "HOL-Library.Monad_Syntax"
begin

section \<open>GLib: error domains, GError and the caller's error slot\<close>

text \<open>
  A \<^verbatim>\<open>GQuark\<close> is an interned string: two quarks are equal exactly when their strings
  are, so a quark is represented by its string. \<^verbatim>\<open>G_DEFINE_QUARK (s, f)\<close> defines
  \<^verbatim>\<open>f_quark ()\<close> as the quark of the string \<^verbatim>\<open>s\<close> (lines 35-36 of gskslcompiler.c).
  \<^verbatim>\<open>G_FILE_ERROR\<close> and the values of \<^verbatim>\<open>GFileError\<close> are GLib's.
\<close>

type_synonym gquark = string

record gerror =
  error_domain :: gquark
  error_code :: int
  error_message :: string

definition gsk_sl_compiler_error_quark :: gquark where
  "gsk_sl_compiler_error_quark = ''gsk-sl-compiler-error-quark''"

definition gsk_sl_compiler_warning_quark :: gquark where
  "gsk_sl_compiler_warning_quark = ''gsk-sl-compiler-warning-quark''"

definition G_FILE_ERROR :: gquark where
  "G_FILE_ERROR = ''g-file-error-quark''"

definition G_FILE_ERROR_EXIST :: int where
  "G_FILE_ERROR_EXIST = 0"

definition G_FILE_ERROR_FAILED :: int where
  "G_FILE_ERROR_FAILED = 24"

text \<open>
  The \<^verbatim>\<open>GError **error\<close> argument of a call: \<open>None\<close> is a NULL pointer (the caller
  wants no error), \<open>Some None\<close> the address of an empty slot, \<open>Some (Some e)\<close> the
  address of a slot that already holds \<open>e\<close>. Every function that takes the argument
  returns the slot as it leaves it.
\<close>

type_synonym error_slot = "gerror option option"

definition g_set_error :: "error_slot \<Rightarrow> gquark \<Rightarrow> int \<Rightarrow> string \<Rightarrow> error_slot" where
  "g_set_error err domain code message =
     (case err of
        None \<Rightarrow> None
      | Some None \<Rightarrow> Some (Some \<lparr>error_domain = domain, error_code = code, error_message = message\<rparr>)
      | Some (Some e) \<Rightarrow> Some (Some e))"

definition g_propagate_error :: "error_slot \<Rightarrow> gerror option \<Rightarrow> error_slot" where
  "g_propagate_error dest src =
     (case src of
        None \<Rightarrow> dest
      | Some e \<Rightarrow>
          (case dest of
             None \<Rightarrow> None
           | Some None \<Rightarrow> Some (Some e)
           | Some (Some e') \<Rightarrow> Some (Some e')))"

definition g_error_copy :: "gerror \<Rightarrow> gerror" where
  "g_error_copy error = error"

definition g_prefix_error :: "gerror option \<Rightarrow> string \<Rightarrow> gerror option" where
  "g_prefix_error err prefix =
     (case err of
        None \<Rightarrow> None
      | Some e \<Rightarrow> Some (e\<lparr>error_message := prefix @ error_message e\<rparr>))"

section \<open>printf conversions\<close>

definition dquote :: char where
  "dquote = CHR 0x22"

function decimal :: "nat \<Rightarrow> string" where
  "decimal n =
     (if n < 10 then [''0123456789'' ! n]
      else decimal (n div 10) @ [''0123456789'' ! (n mod 10)])"
  by pat_completeness auto
termination
  by (relation "measure id") auto

text \<open>
  \<^verbatim>\<open>%<width>zu\<close>: a \<^verbatim>\<open>size_t\<close> (64 bits here) in decimal, padded with spaces on the left
  to at least \<open>width\<close> characters; a longer number is not cut.
\<close>

definition printf_zu :: "nat \<Rightarrow> 64 word \<Rightarrow> string" where
  "printf_zu width v =
     (let s = decimal (unat v) in replicate (width - length s) CHR '' '' @ s)"

section \<open>Source locations, code sources and the tokenizer interface\<close>

text \<open>
  Modelled from the spec: \<^verbatim>\<open>GskCodeLocation\<close> is declared in gskcodesourceprivate.h,
  which is not under src/. The spec's SourceLocation is a 0-based line count and a byte
  offset within the line; gskslcompiler.c reads them as the \<^verbatim>\<open>size_t\<close> fields
  \<^verbatim>\<open>lines\<close> and \<^verbatim>\<open>line_bytes\<close>.
\<close>

record location =
  lines :: "64 word"
  line_bytes :: "64 word"

text \<open>
  Modelled from the spec: \<^verbatim>\<open>GskCodeSource\<close> (gskcodesource.c is not under src/) is a
  named unit of source text, backed by a file or by bytes held in memory. A \<^verbatim>\<open>GFile\<close>
  is represented by the string that identifies it.
\<close>

type_synonym gfile = string

record code_source =
  code_source_name :: string
  code_source_file :: "gfile option"
  code_source_bytes :: "string option"

definition gsk_code_source_new_for_bytes :: "string \<Rightarrow> string \<Rightarrow> code_source" where
  "gsk_code_source_new_for_bytes name bytes =
     \<lparr>code_source_name = name, code_source_file = None, code_source_bytes = Some bytes\<rparr>"

definition gsk_code_source_get_file :: "code_source \<Rightarrow> gfile option" where
  "gsk_code_source_get_file source = code_source_file source"

text \<open>
  The tokenizer (gsksltokenizer.c) is not under src/: its operations are parameters.
  \<open>tokenizer_read_token\<close> returns the tokenizer after the read, the token read, and the
  calls it made to the error callback during the read, in order, each with the
  callback's arguments \<open>(fatal, location, token, error)\<close>. The token type is a
  parameter too, with the two tests gskslcompiler.c applies to a token.
\<close>

type_synonym 'tok diagnostic = "bool \<times> location \<times> 'tok \<times> gerror"

record ('ts, 'tok) tokenizer_ops =
  string_is_valid_identifier :: "string \<Rightarrow> bool"
  tokenizer_new :: "code_source \<Rightarrow> 'ts"
  tokenizer_get_location :: "'ts \<Rightarrow> location"
  tokenizer_read_token :: "'ts \<Rightarrow> 'ts \<times> 'tok \<times> 'tok diagnostic list"
  token_is_skipped :: "'tok \<Rightarrow> bool"
  token_is_eof :: "'tok \<Rightarrow> bool"

section \<open>Macro definitions on the heap\<close>

text \<open>
  Modelled from the spec: \<^verbatim>\<open>GskSlDefine\<close> (gsksldefine.c is not under src/) is the
  spec's MacroDefinition: a name and an ordered sequence of (location, token) pairs,
  shared by reference counting and destroyed when the last reference is dropped.
  Defines live in an explicit heap: an address is an index into the list of objects
  ever allocated, a freed object leaves \<open>None\<close> at its address, and a new object gets
  the next index, so a new address is never one in use. Every operation on an address
  that holds no object has no defined result (\<open>None\<close>). An object is made with one
  reference and freed when it loses its last one, so no object on the heap has a count
  of zero; dropping a reference of such an object has no defined result either.
\<close>

type_synonym addr = nat

record 'tok sl_define =
  define_name :: string
  define_source_file :: "gfile option"
  define_tokens :: "(location \<times> 'tok) list"
  define_ref_count :: nat

type_synonym 'tok heap = "'tok sl_define option list"

definition heap_lookup :: "'tok heap \<Rightarrow> addr \<Rightarrow> 'tok sl_define option" where
  "heap_lookup h a = (if a < length h then h ! a else None)"

definition gsk_sl_define_new :: "'tok heap \<Rightarrow> string \<Rightarrow> gfile option \<Rightarrow> 'tok heap \<times> addr" where
  "gsk_sl_define_new h name source_file =
     (h @ [Some \<lparr>define_name = name, define_source_file = source_file,
                 define_tokens = [], define_ref_count = 1\<rparr>],
      length h)"

definition gsk_sl_define_ref :: "'tok heap \<Rightarrow> addr \<Rightarrow> 'tok heap option" where
  "gsk_sl_define_ref h define =
     (case heap_lookup h define of
        None \<Rightarrow> None
      | Some d \<Rightarrow> Some (h[define := Some (d\<lparr>define_ref_count := define_ref_count d + 1\<rparr>)]))"

definition gsk_sl_define_unref :: "'tok heap \<Rightarrow> addr \<Rightarrow> 'tok heap option" where
  "gsk_sl_define_unref h define =
     (case heap_lookup h define of
        None \<Rightarrow> None
      | Some d \<Rightarrow>
          if define_ref_count d = 0 then None
          else if define_ref_count d = 1 then Some (h[define := None])
          else Some (h[define := Some (d\<lparr>define_ref_count := define_ref_count d - 1\<rparr>)]))"

definition gsk_sl_define_add_token ::
  "'tok heap \<Rightarrow> addr \<Rightarrow> location \<Rightarrow> 'tok \<Rightarrow> 'tok heap option" where
  "gsk_sl_define_add_token h define location token =
     (case heap_lookup h define of
        None \<Rightarrow> None
      | Some d \<Rightarrow> Some (h[define := Some (d\<lparr>define_tokens := define_tokens d @ [(location, token)]\<rparr>)]))"

text \<open>
  \<^verbatim>\<open>gsk_sl_define_get_name (define)\<close> returns a pointer to the name the define owns, not
  a copy: the pointer is represented by the address of the owning define, and reading
  the string through it needs that define to be alive.
\<close>

datatype name_ptr = Name_of addr

definition gsk_sl_define_get_name :: "addr \<Rightarrow> name_ptr" where
  "gsk_sl_define_get_name define = Name_of define"

fun read_name :: "'tok heap \<Rightarrow> name_ptr \<Rightarrow> string option" where
  "read_name h (Name_of a) = map_option define_name (heap_lookup h a)"

section \<open>GLib: the hash table of defines\<close>

text \<open>
  A \<^verbatim>\<open>GHashTable\<close> created with \<^verbatim>\<open>g_str_hash\<close>, \<^verbatim>\<open>g_str_equal\<close>, no key destroy function
  and \<^verbatim>\<open>gsk_sl_define_unref\<close> as value destroy function (lines 61-62 and 180-181). An
  entry is a key pointer and a value pointer; keys are compared by the strings they
  point to. The order of the entries is the order of iteration, which GLib leaves
  unspecified. \<^verbatim>\<open>g_hash_table_replace\<close> on a key that is present overwrites the stored
  key pointer and the value, then destroys the old value; \<^verbatim>\<open>g_hash_table_remove\<close>
  destroys the value of the entry it removes. A table holding a key that cannot be read
  has no defined behaviour.
\<close>

type_synonym hash_table = "(name_ptr \<times> addr) list"

definition key_matches :: "'tok heap \<Rightarrow> string \<Rightarrow> name_ptr \<times> addr \<Rightarrow> bool" where
  "key_matches h s e = (read_name h (fst e) = Some s)"

definition keys_readable :: "'tok heap \<Rightarrow> hash_table \<Rightarrow> bool" where
  "keys_readable h t = list_all (\<lambda>e. read_name h (fst e) \<noteq> None) t"

fun replace_first :: "('a \<Rightarrow> bool) \<Rightarrow> 'a \<Rightarrow> 'a list \<Rightarrow> 'a list" where
  "replace_first P y [] = []"
| "replace_first P y (x # xs) = (if P x then y # xs else x # replace_first P y xs)"

fun remove_first :: "('a \<Rightarrow> bool) \<Rightarrow> 'a list \<Rightarrow> 'a list" where
  "remove_first P [] = []"
| "remove_first P (x # xs) = (if P x then xs else x # remove_first P xs)"

definition g_hash_table_lookup :: "'tok heap \<Rightarrow> hash_table \<Rightarrow> string \<Rightarrow> addr option option" where
  "g_hash_table_lookup h t s =
     (if \<not> keys_readable h t then None
      else Some (map_option snd (find (key_matches h s) t)))"

definition g_hash_table_replace ::
  "'tok heap \<Rightarrow> hash_table \<Rightarrow> name_ptr \<Rightarrow> addr \<Rightarrow> ('tok heap \<times> hash_table) option" where
  "g_hash_table_replace h t key val =
     (case read_name h key of
        None \<Rightarrow> None
      | Some s \<Rightarrow>
          if \<not> keys_readable h t then None
          else
            (case find (key_matches h s) t of
               None \<Rightarrow> Some (h, t @ [(key, val)])
             | Some old \<Rightarrow>
                 do {
                   h' \<leftarrow> gsk_sl_define_unref h (snd old);
                   Some (h', replace_first (key_matches h s) (key, val) t)
                 }))"

definition g_hash_table_remove ::
  "'tok heap \<Rightarrow> hash_table \<Rightarrow> string \<Rightarrow> ('tok heap \<times> hash_table) option" where
  "g_hash_table_remove h t s =
     (if \<not> keys_readable h t then None
      else
        (case find (key_matches h s) t of
           None \<Rightarrow> Some (h, t)
         | Some old \<Rightarrow>
             do {
               h' \<leftarrow> gsk_sl_define_unref h (snd old);
               Some (h', remove_first (key_matches h s) t)
             }))"

section \<open>The compiler\<close>

record compiler =
  compiler_defines :: hash_table

definition gsk_sl_compiler_init :: compiler where
  "gsk_sl_compiler_init = \<lparr>compiler_defines = []\<rparr>"

definition gsk_sl_compiler_new :: "compiler option" where
  "gsk_sl_compiler_new = Some gsk_sl_compiler_init"

subsection \<open>add_define\<close>

definition gsk_sl_compiler_add_define_error_func ::
  "bool \<Rightarrow> location \<Rightarrow> 'tok \<Rightarrow> gerror \<Rightarrow> gerror option \<Rightarrow> gerror option" where
  "gsk_sl_compiler_add_define_error_func fatal location token error real_error =
     (if \<not> fatal then real_error
      else if real_error \<noteq> None then real_error
      else
        g_prefix_error (Some (g_error_copy error))
          (printf_zu 3 (lines location + 1) @ '':'' @ printf_zu 2 (line_bytes location) @ '': ''))"

text \<open>The callbacks of one \<^verbatim>\<open>gsk_sl_tokenizer_read_token\<close> call, run in order on \<^verbatim>\<open>real_error\<close>.\<close>

definition run_error_func :: "'tok diagnostic list \<Rightarrow> gerror option \<Rightarrow> gerror option" where
  "run_error_func diags real_error =
     fold (\<lambda>(fatal, location, token, error).
             gsk_sl_compiler_add_define_error_func fatal location token error)
          diags real_error"

text \<open>
  The inner \<^verbatim>\<open>do ... while (gsk_sl_token_is_skipped (&token))\<close> loop of lines 131-137:
  it returns the tokenizer, \<^verbatim>\<open>real_error\<close>, and the location and token of the last read.
  \<open>None\<close>: the loop does not end.
\<close>

partial_function (option) read_unskipped_token ::
  "('ts, 'tok) tokenizer_ops \<Rightarrow> 'ts \<Rightarrow> gerror option
   \<Rightarrow> ('ts \<times> gerror option \<times> location \<times> 'tok) option" where
  "read_unskipped_token T tokenizer real_error =
     (let location = tokenizer_get_location T tokenizer in
      case tokenizer_read_token T tokenizer of
        (tokenizer', token, diags) \<Rightarrow>
          let real_error' = run_error_func diags real_error in
          if token_is_skipped T token then read_unskipped_token T tokenizer' real_error'
          else Some (tokenizer', real_error', location, token))"

text \<open>
  The \<^verbatim>\<open>while (TRUE)\<close> loop of lines 129-143 on the define at address \<open>define\<close>.
  \<open>None\<close>: the loop does not end, or the define is not on the heap.
\<close>

partial_function (option) read_define_tokens ::
  "('ts, 'tok) tokenizer_ops \<Rightarrow> 'ts \<Rightarrow> gerror option \<Rightarrow> 'tok heap \<Rightarrow> addr
   \<Rightarrow> ('ts \<times> gerror option \<times> 'tok heap) option" where
  "read_define_tokens T tokenizer real_error h define =
     do {
       (tokenizer', real_error', location, token) \<leftarrow> read_unskipped_token T tokenizer real_error;
       if token_is_eof T token then Some (tokenizer', real_error', h)
       else do {
         h' \<leftarrow> gsk_sl_define_add_token h define location token;
         read_define_tokens T tokenizer' real_error' h' define
       }
     }"

declare read_unskipped_token.simps [code]
declare read_define_tokens.simps [code]

text \<open>
  \<^verbatim>\<open>gsk_sl_compiler_add_define\<close>, lines 94-161. The result is the heap, the compiler, the
  caller's error slot and the value returned; \<open>None\<close> when the call has no defined
  result. A \<open>compiler\<close> of \<open>None\<close> is a pointer that fails \<^verbatim>\<open>GSK_IS_SL_COMPILER\<close>, a
  \<open>name\<close> or \<open>definition\<close> of \<open>None\<close> a NULL string.
\<close>

definition gsk_sl_compiler_add_define ::
  "('ts, 'tok) tokenizer_ops \<Rightarrow> 'tok heap \<Rightarrow> compiler option \<Rightarrow> string option \<Rightarrow> string option
   \<Rightarrow> error_slot \<Rightarrow> ('tok heap \<times> compiler option \<times> error_slot \<times> bool) option" where
  "gsk_sl_compiler_add_define T h compiler name definition error =
     (case compiler of
        None \<Rightarrow> Some (h, compiler, error, False)
      | Some c \<Rightarrow>
     (case name of
        None \<Rightarrow> Some (h, compiler, error, False)
      | Some nm \<Rightarrow>
     if \<not> (error = None \<or> error = Some None) then Some (h, compiler, error, False)
     else if \<not> string_is_valid_identifier T nm then
       Some (h, compiler,
             g_set_error error G_FILE_ERROR G_FILE_ERROR_FAILED
               (''Define name '' @ [dquote] @ nm @ [dquote] @ '' is not a valid identifier''),
             False)
     else
       let definition' = (case definition of None \<Rightarrow> ''1'' | Some d \<Rightarrow> d);
           (h1, define) = gsk_sl_define_new h nm None;
           bytes = definition';
           source = gsk_code_source_new_for_bytes ''<define>'' bytes;
           tokenizer = tokenizer_new T source
       in do {
         (tokenizer', real_error, h2) \<leftarrow> read_define_tokens T tokenizer None h1 define;
         if real_error = None then do {
           (h3, defines') \<leftarrow>
             g_hash_table_replace h2 (compiler_defines c) (gsk_sl_define_get_name define) define;
           Some (h3, Some (c\<lparr>compiler_defines := defines'\<rparr>), error, True)
         }
         else do {
           h3 \<leftarrow> gsk_sl_define_unref h2 define;
           Some (h3, compiler, g_propagate_error error real_error, False)
         }
       }))"

subsection \<open>remove_define and copy_defines\<close>

definition gsk_sl_compiler_remove_define ::
  "'tok heap \<Rightarrow> compiler option \<Rightarrow> string option \<Rightarrow> ('tok heap \<times> compiler option) option" where
  "gsk_sl_compiler_remove_define h compiler name =
     (case compiler of
        None \<Rightarrow> Some (h, compiler)
      | Some c \<Rightarrow>
     (case name of
        None \<Rightarrow> Some (h, compiler)
      | Some nm \<Rightarrow>
          do {
            (h', defines') \<leftarrow> g_hash_table_remove h (compiler_defines c) nm;
            Some (h', Some (c\<lparr>compiler_defines := defines'\<rparr>))
          }))"

text \<open>
  The loop of lines 183-187 over the entries the iterator has still to visit.
\<close>

fun copy_defines_loop ::
  "'tok heap \<Rightarrow> hash_table \<Rightarrow> hash_table \<Rightarrow> ('tok heap \<times> hash_table) option" where
  "copy_defines_loop h copy [] = Some (h, copy)"
| "copy_defines_loop h copy ((key, val) # iter) =
     do {
       h1 \<leftarrow> gsk_sl_define_ref h val;
       (h2, copy') \<leftarrow> g_hash_table_replace h1 copy key val;
       copy_defines_loop h2 copy' iter
     }"

text \<open>
  \<^verbatim>\<open>gsk_sl_compiler_copy_defines\<close>, lines 173-190, has no check of its argument: on a
  pointer that is no compiler it has no defined result.
\<close>

definition gsk_sl_compiler_copy_defines ::
  "'tok heap \<Rightarrow> compiler option \<Rightarrow> ('tok heap \<times> hash_table) option" where
  "gsk_sl_compiler_copy_defines h compiler =
     (case compiler of
        None \<Rightarrow> None
      | Some c \<Rightarrow> copy_defines_loop h [] (compiler_defines c))"

subsection \<open>resolve_include\<close>

text \<open>
  GIO and \<^verbatim>\<open>gsk_code_source_load\<close> are parameters. \<open>source_load\<close> is given the error
  slot and returns the bytes loaded, if any, and the slot as it leaves it.
\<close>

record file_ops =
  file_get_parent :: "gfile \<Rightarrow> gfile option"
  file_resolve_relative_path :: "gfile \<Rightarrow> string \<Rightarrow> gfile"
  source_new_for_file :: "gfile \<Rightarrow> code_source"
  source_load :: "code_source \<Rightarrow> error_slot \<Rightarrow> string option \<times> error_slot"

text \<open>
  \<^verbatim>\<open>gsk_sl_compiler_resolve_include\<close>, lines 192-231: the code source returned and the
  caller's error slot. When the base file has no parent, line 210 hands a NULL parent
  to GIO; what follows is not decided by this file, and the model gives no result.
\<close>

definition gsk_sl_compiler_resolve_include ::
  "file_ops \<Rightarrow> compiler option \<Rightarrow> code_source \<Rightarrow> bool \<Rightarrow> string \<Rightarrow> error_slot
   \<Rightarrow> (code_source option \<times> error_slot) option" where
  "gsk_sl_compiler_resolve_include F compiler source local name error =
     (if local then
        (case gsk_code_source_get_file source of
           Some source_file \<Rightarrow>
             (case file_get_parent F source_file of
                None \<Rightarrow> None
              | Some parent \<Rightarrow>
                  let file = file_resolve_relative_path F parent name;
                      result = source_new_for_file F file;
                      (bytes, error') = source_load F result error
                  in (case bytes of
                        Some b \<Rightarrow> Some (Some result, error')
                      | None \<Rightarrow> Some (None, error')))
         | None \<Rightarrow> Some (None, error))
      else
        Some (None,
              g_set_error error G_FILE_ERROR G_FILE_ERROR_EXIST
                (''Could not resolve '' @ [dquote] @ name @ [dquote] @ '' in search path.'')))"

subsection \<open>The compile pipeline\<close>

text \<open>
  The preprocessor and the program (gskslpreprocessor.c, gskslprogram.c) are not under
  src/: their operations are parameters. \<open>program_parse\<close> returns the program and the
  preprocessor as the call leaves them, or \<open>None\<close> when it does not return.
\<close>

record ('tok, 'pp, 'prog) pipeline_ops =
  program_new :: "'prog"
  preprocessor_new :: "'tok heap \<Rightarrow> compiler \<Rightarrow> code_source \<Rightarrow> 'pp"
  program_parse :: "'prog \<Rightarrow> 'pp \<Rightarrow> ('prog \<times> 'pp) option"
  preprocessor_has_fatal_error :: "'pp \<Rightarrow> bool"

text \<open>
  \<^verbatim>\<open>gsk_sl_compiler_compile\<close>, lines 233-255. The inner option is the pointer returned
  (\<open>None\<close> is NULL), the outer one whether the call returns.
\<close>

definition gsk_sl_compiler_compile ::
  "('tok, 'pp, 'prog) pipeline_ops \<Rightarrow> 'tok heap \<Rightarrow> compiler \<Rightarrow> code_source \<Rightarrow> 'prog option option" where
  "gsk_sl_compiler_compile P h compiler source =
     (let program = program_new P;
          preproc = preprocessor_new P h compiler source
      in do {
        (program', preproc') \<leftarrow> program_parse P program preproc;
        let result = (if preprocessor_has_fatal_error P preproc' then None else Some program');
        Some result
      })"

definition gsk_sl_compiler_compile_file ::
  "('tok, 'pp, 'prog) pipeline_ops \<Rightarrow> file_ops \<Rightarrow> 'tok heap \<Rightarrow> compiler option \<Rightarrow> gfile option
   \<Rightarrow> 'prog option option" where
  "gsk_sl_compiler_compile_file P F h compiler file =
     (case compiler of
        None \<Rightarrow> Some None
      | Some c \<Rightarrow>
     (case file of
        None \<Rightarrow> Some None
      | Some f \<Rightarrow>
          let source = source_new_for_file F f
          in gsk_sl_compiler_compile P h c source))"

definition gsk_sl_compiler_compile_bytes ::
  "('tok, 'pp, 'prog) pipeline_ops \<Rightarrow> 'tok heap \<Rightarrow> compiler option \<Rightarrow> string option
   \<Rightarrow> 'prog option option" where
  "gsk_sl_compiler_compile_bytes P h compiler bytes =
     (case compiler of
        None \<Rightarrow> Some None
      | Some c \<Rightarrow>
     (case bytes of
        None \<Rightarrow> Some None
      | Some b \<Rightarrow>
          let source = gsk_code_source_new_for_bytes ''<program>'' b
          in gsk_sl_compiler_compile P h c source))"

section \<open>Notions used to state the properties\<close>

subsection \<open>The tokenization of a definition\<close>

text \<open>
  The reads a tokenizer answers, from a given state up to and including the first
  token that ends the loop of \<^verbatim>\<open>gsk_sl_compiler_add_define\<close> (a token that is EOF and
  is not skipped), each with the location the tokenizer had before the read and the
  callbacks of the read; and the tokenizer after the last of them. \<open>None\<close> when that
  token does not come within \<open>n\<close> reads.
\<close>

fun token_stream ::
  "('ts, 'tok) tokenizer_ops \<Rightarrow> nat \<Rightarrow> 'ts
   \<Rightarrow> ((location \<times> 'tok \<times> 'tok diagnostic list) list \<times> 'ts) option" where
  "token_stream T 0 tokenizer = None"
| "token_stream T (Suc n) tokenizer =
     (let location = tokenizer_get_location T tokenizer in
      case tokenizer_read_token T tokenizer of
        (tokenizer', token, diags) \<Rightarrow>
          if \<not> token_is_skipped T token \<and> token_is_eof T token
          then Some ([(location, token, diags)], tokenizer')
          else map_option (\<lambda>(evs, tokenizer''). ((location, token, diags) # evs, tokenizer''))
                 (token_stream T n tokenizer'))"

text \<open>The tokenization without its last token (the EOF) and without the skipped tokens.\<close>

definition stored_tokens ::
  "('ts, 'tok) tokenizer_ops \<Rightarrow> (location \<times> 'tok \<times> 'tok diagnostic list) list
   \<Rightarrow> (location \<times> 'tok) list" where
  "stored_tokens T evs =
     map (\<lambda>(location, token, diags). (location, token))
       (filter (\<lambda>(location, token, diags). \<not> token_is_skipped T token) (butlast evs))"

text \<open>All callbacks of a tokenization, in order, and the first fatal one.\<close>

definition reported ::
  "(location \<times> 'tok \<times> 'tok diagnostic list) list \<Rightarrow> 'tok diagnostic list" where
  "reported evs = concat (map (\<lambda>(location, token, diags). diags) evs)"

definition first_fatal :: "'tok diagnostic list \<Rightarrow> 'tok diagnostic option" where
  "first_fatal diags = find (\<lambda>(fatal, location, token, error). fatal) diags"

text \<open>The location tag of the spec: line plus one in width 3, column in width 2.\<close>

definition location_tag :: "location \<Rightarrow> string" where
  "location_tag location =
     printf_zu 3 (lines location + 1) @ '':'' @ printf_zu 2 (line_bytes location) @ '': ''"

text \<open>The code source \<^verbatim>\<open>gsk_sl_compiler_add_define\<close> makes of its definition argument (lines 118-123).\<close>

definition define_source :: "string option \<Rightarrow> code_source" where
  "define_source defn =
     gsk_code_source_new_for_bytes ''<define>'' (case defn of None \<Rightarrow> ''1'' | Some d \<Rightarrow> d)"

subsection \<open>Tables that share defines\<close>

text \<open>
  What a table shows of a define: its name and its tokens (not its reference count);
  and what a table shows: for every entry, the string its key points to and what its
  value shows.
\<close>

definition define_body :: "'tok heap \<Rightarrow> addr \<Rightarrow> (string \<times> (location \<times> 'tok) list) option" where
  "define_body h a = map_option (\<lambda>d. (define_name d, define_tokens d)) (heap_lookup h a)"

definition table_view ::
  "'tok heap \<Rightarrow> hash_table \<Rightarrow> (string option \<times> (string \<times> (location \<times> 'tok) list) option) list" where
  "table_view h t = map (\<lambda>e. (read_name h (fst e), define_body h (snd e))) t"

text \<open>
  The state of the tables in existence (the compiler's and the copies made of it), as a
  list. \<open>owners ts v\<close> is the number of tables that hold the define at \<open>v\<close>. The
  tables are well formed when, in every table, every key is the name pointer of the
  define the entry maps to, that define is alive with a reference for each table that
  holds it, and no two keys point to equal strings.
\<close>

definition holds :: "hash_table \<Rightarrow> addr \<Rightarrow> nat" where
  "holds t v = (if v \<in> set (map snd t) then 1 else 0)"

definition owners :: "hash_table list \<Rightarrow> addr \<Rightarrow> nat" where
  "owners ts v = sum_list (map (\<lambda>t. holds t v) ts)"

definition entry_ok :: "'tok heap \<Rightarrow> hash_table list \<Rightarrow> name_ptr \<times> addr \<Rightarrow> bool" where
  "entry_ok h ts e =
     (fst e = gsk_sl_define_get_name (snd e) \<and>
      (case heap_lookup h (snd e) of
         None \<Rightarrow> False
       | Some d \<Rightarrow> owners ts (snd e) \<le> define_ref_count d))"

definition table_ok :: "'tok heap \<Rightarrow> hash_table list \<Rightarrow> hash_table \<Rightarrow> bool" where
  "table_ok h ts t =
     (list_all (entry_ok h ts) t \<and> distinct (map (\<lambda>e. read_name h (fst e)) t))"

definition tables_inv :: "'tok heap \<Rightarrow> hash_table list \<Rightarrow> bool" where
  "tables_inv h ts = list_all (table_ok h ts) ts"

text \<open>A sequence of calls that change a compiler's table.\<close>

datatype mutation =
  Add_define "string option" "string option" error_slot
| Remove_define "string option"

fun apply_mutation ::
  "('ts, 'tok) tokenizer_ops \<Rightarrow> 'tok heap \<Rightarrow> compiler option \<Rightarrow> mutation
   \<Rightarrow> ('tok heap \<times> compiler option) option" where
  "apply_mutation T h compiler (Add_define name defn error) =
     map_option (\<lambda>(h', compiler', error', r). (h', compiler'))
       (gsk_sl_compiler_add_define T h compiler name defn error)"
| "apply_mutation T h compiler (Remove_define name) =
     gsk_sl_compiler_remove_define h compiler name"

fun apply_mutations ::
  "('ts, 'tok) tokenizer_ops \<Rightarrow> 'tok heap \<Rightarrow> compiler option \<Rightarrow> mutation list
   \<Rightarrow> ('tok heap \<times> compiler option) option" where
  "apply_mutations T h compiler [] = Some (h, compiler)"
| "apply_mutations T h compiler (m # ms) =
     do {
       (h', compiler') \<leftarrow> apply_mutation T h compiler m;
       apply_mutations T h' compiler' ms
     }"

subsection \<open>Instances of the parameters, for concrete inputs\<close>

text \<open>
  A small tokenizer to run the operations on: every character is a token, a space or a
  newline is a skipped token, \<open>$\<close> is a skipped error token reported as a fatal
  error, \<open>?\<close> is an ordinary token reported with a non-fatal warning, and the end of
  the text is EOF, again and again. Identifiers are those of C.
\<close>

datatype char_token = Char_token char | Space_token | Error_token | Eof_token

record char_tokenizer =
  ct_rest :: string
  ct_location :: location

definition char_tokenizer_read ::
  "char_tokenizer \<Rightarrow> char_tokenizer \<times> char_token \<times> char_token diagnostic list" where
  "char_tokenizer_read ts =
     (case ct_rest ts of
        [] \<Rightarrow> (ts, Eof_token, [])
      | c # cs \<Rightarrow>
          let loc = ct_location ts;
              next_col = \<lparr>ct_rest = cs, ct_location = loc\<lparr>line_bytes := line_bytes loc + 1\<rparr>\<rparr>;
              next_line = \<lparr>ct_rest = cs, ct_location = \<lparr>lines = lines loc + 1, line_bytes = 0\<rparr>\<rparr>
          in if c = CHR 0x0A then (next_line, Space_token, [])
             else if c = CHR '' '' then (next_col, Space_token, [])
             else if c = CHR ''$'' then
               (next_col, Error_token,
                [(True, loc, Error_token,
                  \<lparr>error_domain = gsk_sl_compiler_error_quark, error_code = 0,
                   error_message = ''unexpected character''\<rparr>)])
             else if c = CHR ''?'' then
               (next_col, Char_token c,
                [(False, loc, Char_token c,
                  \<lparr>error_domain = gsk_sl_compiler_warning_quark, error_code = 0,
                   error_message = ''suspicious character''\<rparr>)])
             else (next_col, Char_token c, []))"

definition identifier_start :: "char \<Rightarrow> bool" where
  "identifier_start c = (c \<in> set ''abcdefghijklmnopqrstuvwxyzABCDEFGHIJKLMNOPQRSTUVWXYZ_'')"

definition identifier_char :: "char \<Rightarrow> bool" where
  "identifier_char c = (identifier_start c \<or> c \<in> set ''0123456789'')"

definition c_identifier :: "string \<Rightarrow> bool" where
  "c_identifier s =
     (case s of [] \<Rightarrow> False | c # cs \<Rightarrow> identifier_start c \<and> list_all identifier_char cs)"

definition char_tokenizer_ops :: "(char_tokenizer, char_token) tokenizer_ops" where
  "char_tokenizer_ops =
     \<lparr>string_is_valid_identifier = c_identifier,
      tokenizer_new = (\<lambda>source.
        \<lparr>ct_rest = (case code_source_bytes source of None \<Rightarrow> [] | Some b \<Rightarrow> b),
         ct_location = \<lparr>lines = 0, line_bytes = 0\<rparr>\<rparr>),
      tokenizer_get_location = ct_location,
      tokenizer_read_token = char_tokenizer_read,
      token_is_skipped = (\<lambda>t. t = Space_token \<or> t = Error_token),
      token_is_eof = (\<lambda>t. t = Eof_token)\<rparr>"

text \<open>
  A file system with a root and one directory that holds no file, and a pipeline whose
  program is the length of the text and whose preprocessor fails on a \<open>$\<close>.
\<close>

definition empty_dir_ops :: file_ops where
  "empty_dir_ops =
     \<lparr>file_get_parent = (\<lambda>f. if f = ''/'' then None else Some ''/dir''),
      file_resolve_relative_path = (\<lambda>parent name. parent @ ''/'' @ name),
      source_new_for_file = (\<lambda>f.
        \<lparr>code_source_name = f, code_source_file = Some f, code_source_bytes = None\<rparr>),
      source_load = (\<lambda>source error. (None, g_set_error error G_FILE_ERROR 4 ''No such file''))\<rparr>"

definition length_pipeline :: "(char_token, string \<times> bool, nat) pipeline_ops" where
  "length_pipeline =
     \<lparr>program_new = 0,
      preprocessor_new = (\<lambda>h compiler source.
        (case code_source_bytes source of None \<Rightarrow> [] | Some b \<Rightarrow> b, False)),
      program_parse = (\<lambda>program (text, fatal). Some (length text, (text, CHR ''$'' \<in> set text))),
      preprocessor_has_fatal_error = snd\<rparr>"


text \<open>
  A heap holding one define, \<open>FOO\<close> with no tokens, and a compiler whose table maps
  \<open>FOO\<close> to it.
\<close>

definition foo_heap :: "char_token heap" where
  "foo_heap = [Some \<lparr>define_name = ''FOO'', define_source_file = None, define_tokens = [],
                     define_ref_count = 1\<rparr>]"

definition foo_compiler :: compiler where
  "foo_compiler = \<lparr>compiler_defines = [(Name_of 0, 0)]\<rparr>"

section \<open>Properties\<close>

subsection \<open>Errors and the read loop\<close>

lemma run_error_func_Some [simp]: "run_error_func diags (Some e) = Some e"
  by (induction diags) (auto simp: run_error_func_def gsk_sl_compiler_add_define_error_func_def)

lemma run_error_func_None:
  "run_error_func diags None =
     map_option (\<lambda>(fatal, location, token, error).
        error\<lparr>error_message := location_tag location @ error_message error\<rparr>) (first_fatal diags)"
proof (induction diags)
  case Nil
  then show ?case by (simp add: run_error_func_def first_fatal_def)
next
  case (Cons x xs)
  obtain f l t e where x: "x = (f, l, t, e)" by (cases x)
  show ?case
  proof (cases f)
    case True
    have "run_error_func (x # xs) None =
            run_error_func xs (Some (e\<lparr>error_message := location_tag l @ error_message e\<rparr>))"
      using True
      by (simp add: run_error_func_def x gsk_sl_compiler_add_define_error_func_def
          g_prefix_error_def g_error_copy_def location_tag_def)
    then show ?thesis using True by (simp add: x first_fatal_def)
  next
    case False
    have "run_error_func (x # xs) None = run_error_func xs None"
      using False by (simp add: run_error_func_def x gsk_sl_compiler_add_define_error_func_def)
    then show ?thesis using False Cons by (simp add: x first_fatal_def)
  qed
qed

lemma run_error_func_append:
  "run_error_func (xs @ ys) err = run_error_func ys (run_error_func xs err)"
  by (simp add: run_error_func_def)

lemma heap_lookup_update:
  "heap_lookup (h[a := x]) b = (if a = b \<and> a < length h then x else heap_lookup h b)"
  by (auto simp: heap_lookup_def)

lemma heap_lookup_Some_less: "heap_lookup h a = Some d \<Longrightarrow> a < length h"
  by (auto simp: heap_lookup_def split: if_splits)

lemma token_stream_nonempty: "token_stream T n ts = Some (evs, ts_end) \<Longrightarrow> evs \<noteq> []"
  by (cases n) (auto simp: Let_def split: prod.splits if_splits)

lemma read_define_tokens_skip:
  assumes "tokenizer_read_token T ts = (ts', tok, ds)" "token_is_skipped T tok"
  shows "read_define_tokens T ts err h a = read_define_tokens T ts' (run_error_func ds err) h a"
proof -
  have "read_unskipped_token T ts err = read_unskipped_token T ts' (run_error_func ds err)"
    using assms by (subst read_unskipped_token.simps) simp
  then show ?thesis
    by (subst read_define_tokens.simps, subst (2) read_define_tokens.simps) simp
qed

text \<open>
  The two nested loops read exactly the tokenization: they end when it ends, run every
  callback, and append every token that is neither skipped nor the final EOF.
\<close>

lemma read_define_tokens_stream:
  "token_stream T n ts = Some (evs, ts_end) \<Longrightarrow> heap_lookup h a = Some d \<Longrightarrow>
   read_define_tokens T ts err h a =
     Some (ts_end, run_error_func (reported evs) err,
           h[a := Some (d\<lparr>define_tokens := define_tokens d @ stored_tokens T evs\<rparr>)])"
proof (induction n arbitrary: ts evs err h d)
  case 0
  then show ?case by simp
next
  case (Suc n)
  obtain ts' tok ds where rd: "tokenizer_read_token T ts = (ts', tok, ds)"
    by (cases "tokenizer_read_token T ts")
  let ?loc = "tokenizer_get_location T ts"
  consider (eof) "\<not> token_is_skipped T tok" "token_is_eof T tok"
    | (skip) "token_is_skipped T tok"
    | (store) "\<not> token_is_skipped T tok" "\<not> token_is_eof T tok" by blast
  then show ?case
  proof cases
    case eof
    with Suc.prems rd have evs: "evs = [(?loc, tok, ds)]" "ts_end = ts'" by auto
    have "read_unskipped_token T ts err = Some (ts', run_error_func ds err, ?loc, tok)"
      using rd eof by (subst read_unskipped_token.simps) simp
    moreover have "h[a := Some (d\<lparr>define_tokens := define_tokens d @ stored_tokens T evs\<rparr>)] = h"
      using Suc.prems(2)
      by (simp add: evs stored_tokens_def heap_lookup_def list_update_same_conv split: if_splits)
    ultimately show ?thesis
      using eof by (subst read_define_tokens.simps) (simp add: evs reported_def)
  next
    case skip
    with Suc.prems rd obtain evs' where evs: "evs = (?loc, tok, ds) # evs'"
      and st: "token_stream T n ts' = Some (evs', ts_end)" by auto
    have ne: "evs' \<noteq> []" using st by (rule token_stream_nonempty)
    have "stored_tokens T evs = stored_tokens T evs'"
      using skip ne by (simp add: evs stored_tokens_def)
    moreover have "reported evs = ds @ reported evs'" by (simp add: evs reported_def)
    ultimately show ?thesis
      using Suc.IH[OF st Suc.prems(2), of "run_error_func ds err"]
        read_define_tokens_skip[OF rd skip]
      by (simp add: run_error_func_append)
  next
    case store
    with Suc.prems rd obtain evs' where evs: "evs = (?loc, tok, ds) # evs'"
      and st: "token_stream T n ts' = Some (evs', ts_end)" by auto
    have ne: "evs' \<noteq> []" using st by (rule token_stream_nonempty)
    have stt: "stored_tokens T evs = (?loc, tok) # stored_tokens T evs'"
      using store ne by (simp add: evs stored_tokens_def)
    have rep: "reported evs = ds @ reported evs'" by (simp add: evs reported_def)
    have ru: "read_unskipped_token T ts err = Some (ts', run_error_func ds err, ?loc, tok)"
      using rd store by (subst read_unskipped_token.simps) simp
    let ?d' = "d\<lparr>define_tokens := define_tokens d @ [(?loc, tok)]\<rparr>"
    let ?h' = "h[a := Some ?d']"
    have add: "gsk_sl_define_add_token h a ?loc tok = Some ?h'"
      using Suc.prems(2) by (simp add: gsk_sl_define_add_token_def)
    have lk: "heap_lookup ?h' a = Some ?d'"
      using Suc.prems(2) by (simp add: heap_lookup_update heap_lookup_Some_less)
    show ?thesis
      using Suc.IH[OF st lk, of "run_error_func ds err"] ru add store
      by (subst read_define_tokens.simps) (simp add: stt rep run_error_func_append)
  qed
qed

subsection \<open>Include resolution\<close>

text \<open>
  C5. A search-path include (\<open>local\<close> false) returns no code source and sets the
  caller's empty error slot to the error "Could not resolve "name" in search path.",
  whose message carries the requested name, for every file system, compiler, base
  source and name.
\<close>

theorem resolve_include_search_path_fails:
  "gsk_sl_compiler_resolve_include F compiler source False name (Some None) =
     Some (None,
           Some (Some \<lparr>error_domain = G_FILE_ERROR, error_code = G_FILE_ERROR_EXIST,
                       error_message =
                         ''Could not resolve '' @ [dquote] @ name @ [dquote] @ '' in search path.''\<rparr>))"
  by (simp add: gsk_sl_compiler_resolve_include_def g_set_error_def)

text \<open>
  C6. The claim asks that a local include against a base source with no backing file
  gives the caller some error. The code does not: for every source made by
  \<^verbatim>\<open>gsk_code_source_new_for_bytes\<close>, every name and every file system, the call returns
  no code source and leaves the caller's empty error slot empty.
\<close>

theorem resolve_include_local_bytes_silent:
  "gsk_sl_compiler_resolve_include F compiler (gsk_code_source_new_for_bytes display bytes)
     True name (Some None) = Some (None, Some None)"
  by (simp add: gsk_sl_compiler_resolve_include_def gsk_code_source_new_for_bytes_def
      gsk_code_source_get_file_def)

subsection \<open>The compile pipeline\<close>

text \<open>
  C1. Whenever parsing returns, \<^verbatim>\<open>gsk_sl_compiler_compile\<close> returns NULL if the
  preprocessor then has its fatal-error flag set, and the parsed program otherwise; so
  do \<^verbatim>\<open>gsk_sl_compiler_compile_file\<close> and \<^verbatim>\<open>gsk_sl_compiler_compile_bytes\<close>, called with a
  compiler and a file or bytes, on the source they wrap.
\<close>

theorem compile_null_iff_fatal:
  assumes "program_parse P (program_new P) (preprocessor_new P h c source) = Some (program', preproc')"
  shows "gsk_sl_compiler_compile P h c source =
           Some (if preprocessor_has_fatal_error P preproc' then None else Some program')
       \<and> (source_new_for_file F f = source \<longrightarrow>
            gsk_sl_compiler_compile_file P F h (Some c) (Some f) =
              Some (if preprocessor_has_fatal_error P preproc' then None else Some program'))
       \<and> (gsk_code_source_new_for_bytes ''<program>'' b = source \<longrightarrow>
            gsk_sl_compiler_compile_bytes P h (Some c) (Some b) =
              Some (if preprocessor_has_fatal_error P preproc' then None else Some program'))"
  using assms
  by (simp add: gsk_sl_compiler_compile_def gsk_sl_compiler_compile_file_def
      gsk_sl_compiler_compile_bytes_def)

theorem compile_null_iff_fatal_witness:
  "program_parse length_pipeline (program_new length_pipeline)
     (preprocessor_new length_pipeline [] gsk_sl_compiler_init
        (gsk_code_source_new_for_bytes ''<program>'' ''a$'')) = Some (2, (''a$'', True))
   \<and> gsk_sl_compiler_compile_bytes length_pipeline [] (Some gsk_sl_compiler_init) (Some ''a$'')
       = Some None
   \<and> program_parse length_pipeline (program_new length_pipeline)
     (preprocessor_new length_pipeline [] gsk_sl_compiler_init
        (source_new_for_file empty_dir_ops ''/dir/x'')) = Some (0, ([], False))
   \<and> gsk_sl_compiler_compile_file length_pipeline empty_dir_ops [] (Some gsk_sl_compiler_init)
        (Some ''/dir/x'') = Some (Some 0)"
proof -
  have p1: "program_parse length_pipeline (program_new length_pipeline)
     (preprocessor_new length_pipeline [] gsk_sl_compiler_init
        (gsk_code_source_new_for_bytes ''<program>'' ''a$'')) = Some (2, (''a$'', True))"
    by (simp add: length_pipeline_def gsk_code_source_new_for_bytes_def)
  have p2: "program_parse length_pipeline (program_new length_pipeline)
     (preprocessor_new length_pipeline [] gsk_sl_compiler_init
        (source_new_for_file empty_dir_ops ''/dir/x'')) = Some (0, ([], False))"
    by (simp add: length_pipeline_def empty_dir_ops_def)
  have f: "preprocessor_has_fatal_error length_pipeline (''a$'', True)"
    "\<not> preprocessor_has_fatal_error length_pipeline ([], False)"
    by (simp_all add: length_pipeline_def)
  show ?thesis
    using compile_null_iff_fatal[OF p1, of empty_dir_ops "''/dir/x''" "''a$''"]
      compile_null_iff_fatal[OF p2, of empty_dir_ops "''/dir/x''" "''a$''"] p1 p2 f
    by simp
qed

subsection \<open>add_define on a name that is no identifier\<close>

lemma add_define_invalid:
  "\<not> string_is_valid_identifier T nm \<Longrightarrow> error = None \<or> error = Some None \<Longrightarrow>
   gsk_sl_compiler_add_define T h (Some c) (Some nm) defn error =
     Some (h, Some c,
           g_set_error error G_FILE_ERROR G_FILE_ERROR_FAILED
             (''Define name '' @ [dquote] @ nm @ [dquote] @ '' is not a valid identifier''),
           False)"
  by (auto simp: gsk_sl_compiler_add_define_def)

lemma c_identifier_1bad: "\<not> c_identifier ''1bad''"
  by (simp add: c_identifier_def identifier_start_def)

text \<open>
  C8. For a name that is no valid identifier, \<^verbatim>\<open>gsk_sl_compiler_add_define\<close> returns
  FALSE with the error "Define name "name" is not a valid identifier" in the caller's
  empty slot, for every definition; the heap and the compiler, hence its table of
  defines, are as before. Nothing is tokenized: the result is the same for every
  tokenizer, also one whose reads never reach EOF.
\<close>

theorem add_define_invalid_identifier:
  assumes "\<not> string_is_valid_identifier T nm"
  shows "gsk_sl_compiler_add_define
           (T\<lparr>tokenizer_new := new, tokenizer_get_location := loc, tokenizer_read_token := rd,
              token_is_skipped := skipped, token_is_eof := eof\<rparr>)
           h (Some c) (Some nm) defn (Some None) =
         Some (h, Some c,
               Some (Some \<lparr>error_domain = G_FILE_ERROR, error_code = G_FILE_ERROR_FAILED,
                           error_message =
                             ''Define name '' @ [dquote] @ nm @ [dquote] @ '' is not a valid identifier''\<rparr>),
               False)"
  using assms by (simp add: add_define_invalid g_set_error_def)

theorem add_define_invalid_identifier_witness:
  "\<not> string_is_valid_identifier char_tokenizer_ops ''1bad''
   \<and> gsk_sl_compiler_add_define
        (char_tokenizer_ops\<lparr>tokenizer_new := tokenizer_new char_tokenizer_ops,
            tokenizer_get_location := ct_location,
            tokenizer_read_token := (\<lambda>ts. (ts, Space_token, [])),
            token_is_skipped := (\<lambda>t. True), token_is_eof := (\<lambda>t. False)\<rparr>)
        [] (Some gsk_sl_compiler_init) (Some ''1bad'') (Some ''anything'') (Some None) =
      Some ([], Some gsk_sl_compiler_init,
            Some (Some \<lparr>error_domain = G_FILE_ERROR, error_code = G_FILE_ERROR_FAILED,
                        error_message =
                          ''Define name '' @ [dquote] @ ''1bad'' @ [dquote] @ '' is not a valid identifier''\<rparr>),
            False)"
proof -
  have v: "\<not> string_is_valid_identifier char_tokenizer_ops ''1bad''"
    by (simp add: char_tokenizer_ops_def c_identifier_1bad)
  show ?thesis
    using v add_define_invalid_identifier[OF v, where new = "tokenizer_new char_tokenizer_ops"
          and loc = ct_location and rd = "\<lambda>ts. (ts, Space_token, [])" and skipped = "\<lambda>t. True"
          and eof = "\<lambda>t. False" and h = "[]" and c = gsk_sl_compiler_init
          and defn = "Some ''anything''"]
    by simp
qed

subsection \<open>When the read loop returns\<close>

lemma token_stream_step:
  assumes "tokenizer_read_token T ts = (ts', tok, ds)"
    and "token_is_skipped T tok \<or> \<not> token_is_eof T tok"
    and "token_stream T n ts' = Some (evs, e)"
  shows "token_stream T (Suc n) ts = Some ((tokenizer_get_location T ts, tok, ds) # evs, e)"
  using assms by auto

lemma token_stream_stop:
  assumes "tokenizer_read_token T ts = (ts', tok, ds)"
    and "\<not> token_is_skipped T tok" "token_is_eof T tok"
  shows "token_stream T (Suc n) ts = Some ([(tokenizer_get_location T ts, tok, ds)], ts')"
  using assms by auto

lemma read_unskipped_token_returns:
  assumes "read_unskipped_token T ts err = Some y"
  shows "(case y of (ts1, err1, loc, tok) \<Rightarrow>
     \<not> token_is_skipped T tok
     \<and> (token_is_eof T tok \<longrightarrow> (\<exists>n evs. token_stream T n ts = Some (evs, ts1)))
     \<and> (\<not> token_is_eof T tok \<longrightarrow>
          (\<forall>m evs e. token_stream T m ts1 = Some (evs, e) \<longrightarrow>
             (\<exists>n evs'. token_stream T n ts = Some (evs', e)))))"
proof (induct rule: read_unskipped_token.raw_induct[OF _ assms])
  case (1 rut T ts err y)
  obtain ts' tok ds where rd: "tokenizer_read_token T ts = (ts', tok, ds)"
    by (cases "tokenizer_read_token T ts")
  obtain ts1 err1 loc tok1 where y: "y = (ts1, err1, loc, tok1)" by (cases y)
  show ?case
  proof (cases "token_is_skipped T tok")
    case True
    with 1(2) rd have "rut T ts' (run_error_func ds err) = Some y" by simp
    from 1(1)[OF this] have ih: "\<not> token_is_skipped T tok1"
      "token_is_eof T tok1 \<Longrightarrow> \<exists>n evs. token_stream T n ts' = Some (evs, ts1)"
      "\<And>m evs e. \<not> token_is_eof T tok1 \<Longrightarrow> token_stream T m ts1 = Some (evs, e) \<Longrightarrow>
          \<exists>n evs'. token_stream T n ts' = Some (evs', e)"
      by (auto simp: y)
    have up: "\<And>n evs e. token_stream T n ts' = Some (evs, e) \<Longrightarrow>
        \<exists>n' evs'. token_stream T n' ts = Some (evs', e)"
      using token_stream_step[OF rd] True by blast
    show ?thesis unfolding y using ih up by (simp del: token_stream.simps) blast
  next
    case False
    with 1(2) rd have y': "ts1 = ts'" "tok1 = tok" by (auto simp: y)
    have a: "token_is_eof T tok \<Longrightarrow> \<exists>n evs. token_stream T n ts = Some (evs, ts')"
      using token_stream_stop[OF rd False, of 0] by blast
    have b: "\<And>m evs e. \<not> token_is_eof T tok \<Longrightarrow> token_stream T m ts' = Some (evs, e) \<Longrightarrow>
        \<exists>n evs'. token_stream T n ts = Some (evs', e)"
      using token_stream_step[OF rd] by blast
    show ?thesis unfolding y y' using False a b by (simp del: token_stream.simps)
  qed
qed

lemma read_define_tokens_has_stream:
  assumes "read_define_tokens T ts err h a = Some r"
  shows "\<exists>n evs e. token_stream T n ts = Some (evs, e)"
proof (induct rule: read_define_tokens.raw_induct[OF _ assms])
  case (1 rdt T ts err h a r)
  from 1(2) obtain ts1 err1 loc tok where ru: "read_unskipped_token T ts err = Some (ts1, err1, loc, tok)"
    by (cases "read_unskipped_token T ts err") auto
  from read_unskipped_token_returns[OF ru]
  have u: "token_is_eof T tok \<Longrightarrow> \<exists>n evs. token_stream T n ts = Some (evs, ts1)"
      "\<And>m evs e. \<not> token_is_eof T tok \<Longrightarrow> token_stream T m ts1 = Some (evs, e) \<Longrightarrow>
          \<exists>n evs'. token_stream T n ts = Some (evs', e)"
    by auto
  show ?case
  proof (cases "token_is_eof T tok")
    case True
    then show ?thesis using u(1) by blast
  next
    case False
    with 1(2) ru obtain h' where "rdt T ts1 err1 h' a = Some r"
      by (auto split: Option.bind_splits)
    from 1(1)[OF this] obtain n evs e where "token_stream T n ts1 = Some (evs, e)" by blast
    from u(2)[OF False this] show ?thesis by blast
  qed
qed

lemma read_define_tokens_returns:
  assumes "read_define_tokens T ts err h a = Some r" "heap_lookup h a = Some d"
  shows "\<exists>n evs e. token_stream T n ts = Some (evs, e) \<and>
           r = (e, run_error_func (reported evs) err,
                h[a := Some (d\<lparr>define_tokens := define_tokens d @ stored_tokens T evs\<rparr>)])"
proof -
  from read_define_tokens_has_stream[OF assms(1)]
  obtain n evs e where st: "token_stream T n ts = Some (evs, e)" by blast
  from read_define_tokens_stream[OF st assms(2), of err] assms(1) st show ?thesis by auto
qed

subsection \<open>The heap and lists\<close>

lemma heap_lookup_append:
  "heap_lookup (h @ [x]) b =
     (if b < length h then heap_lookup h b else if b = length h then x else None)"
  by (auto simp: heap_lookup_def nth_append)

lemma read_name_Name_of: "read_name h k = Some s \<Longrightarrow> \<exists>a d. k = Name_of a \<and> heap_lookup h a = Some d \<and> define_name d = s"
  by (cases k) auto

lemma define_unref_live:
  assumes "heap_lookup h v = Some d" "0 < define_ref_count d"
  shows "gsk_sl_define_unref h v =
           Some (h[v := (if define_ref_count d = 1 then None
                         else Some (d\<lparr>define_ref_count := define_ref_count d - 1\<rparr>))])"
  using assms by (simp add: gsk_sl_define_unref_def)

lemma find_Some_mem: "find P xs = Some x \<Longrightarrow> x \<in> set xs \<and> P x"
  by (induction xs) (auto split: if_splits)

lemma find_distinct_key:
  "distinct (map f xs) \<Longrightarrow> x \<in> set xs \<Longrightarrow> find (\<lambda>e. f e = f x) xs = Some x"
  by (induction xs) auto

lemma set_remove_first:
  "distinct (map f xs) \<Longrightarrow> find (\<lambda>e. f e = s) xs = Some x \<Longrightarrow>
   set (remove_first (\<lambda>e. f e = s) xs) = set xs - {x}"
  by (induction xs) (auto split: if_splits dest: find_Some_mem)

lemma map_remove_first_distinct:
  "distinct (map g xs) \<Longrightarrow> distinct (map g (remove_first P xs))"
proof (induction xs)
  case (Cons x xs)
  have "set (remove_first P xs) \<subseteq> set xs" by (induction xs) auto
  with Cons show ?case by auto
qed simp

lemma set_replace_first:
  "distinct (map f xs) \<Longrightarrow> find (\<lambda>e. f e = s) xs = Some x \<Longrightarrow>
   set (replace_first (\<lambda>e. f e = s) y xs) = insert y (set xs - {x})"
  by (induction xs) (auto split: if_splits dest: find_Some_mem)

lemma map_replace_first:
  "find P xs = Some x \<Longrightarrow> g' y = g x \<Longrightarrow> (\<forall>e\<in>set xs. e \<noteq> x \<longrightarrow> g' e = g e) \<Longrightarrow> distinct (map g xs) \<Longrightarrow>
   map g' (replace_first P y xs) = map g xs"
  by (induction xs) (auto split: if_splits dest: find_Some_mem)

lemma sum_list_two_nth:
  fixes xs :: "nat list"
  assumes "i < length xs" "j < length xs" "i \<noteq> j"
  shows "xs ! i + xs ! j \<le> sum_list xs"
proof -
  have "sum_list (xs[i := 0]) = sum_list xs - xs ! i"
    using assms(1) by (simp add: sum_list_update)
  moreover have "xs ! j \<le> sum_list (xs[i := 0])"
  proof (rule member_le_sum_list)
    show "xs ! j \<in> set (xs[i := 0])"
      using assms by (metis length_list_update nth_list_update_neq nth_mem)
  qed simp
  moreover have "xs ! i \<le> sum_list xs" using assms(1) by (intro member_le_sum_list) simp_all
  ultimately show ?thesis by linarith
qed

lemmas owners_holds = owners_def

lemma owners_update:
  "i < length ts \<Longrightarrow> owners (ts[i := t']) v = owners ts v + holds t' v - holds (ts ! i) v"
  by (simp add: owners_holds map_update sum_list_update)

lemma owners_ge_holds: "i < length ts \<Longrightarrow> holds (ts ! i) v \<le> owners ts v"
  unfolding owners_holds by (intro member_le_sum_list) simp_all

lemma owners_two:
  "i < length ts \<Longrightarrow> j < length ts \<Longrightarrow> i \<noteq> j \<Longrightarrow> holds (ts ! i) v + holds (ts ! j) v \<le> owners ts v"
  unfolding owners_holds using sum_list_two_nth[of i "map (\<lambda>t. holds t v) ts" j] by simp

lemma owners_append: "owners (ts @ [t]) v = owners ts v + holds t v"
  by (simp add: owners_holds)

lemma tables_inv_iff:
  "tables_inv h ts \<longleftrightarrow>
     (\<forall>t\<in>set ts. distinct (map (\<lambda>e. read_name h (fst e)) t) \<and>
        (\<forall>e\<in>set t. fst e = Name_of (snd e) \<and>
           (\<exists>d. heap_lookup h (snd e) = Some d \<and> owners ts (snd e) \<le> define_ref_count d)))"
proof -
  have "entry_ok h ts e \<longleftrightarrow> fst e = Name_of (snd e) \<and>
           (\<exists>d. heap_lookup h (snd e) = Some d \<and> owners ts (snd e) \<le> define_ref_count d)" for e
    by (cases "heap_lookup h (snd e)") (simp_all add: entry_ok_def gsk_sl_define_get_name_def)
  then show ?thesis
    by (simp add: tables_inv_def table_ok_def list_all_iff) blast
qed

lemma tables_inv_entry:
  assumes "tables_inv h ts" "t \<in> set ts" "e \<in> set t"
  obtains d where "fst e = Name_of (snd e)" "heap_lookup h (snd e) = Some d"
    "owners ts (snd e) \<le> define_ref_count d" "read_name h (fst e) = Some (define_name d)"
    "0 < define_ref_count d"
proof -
  from assms obtain d where d: "fst e = Name_of (snd e)" "heap_lookup h (snd e) = Some d"
    "owners ts (snd e) \<le> define_ref_count d"
    unfolding tables_inv_iff by blast
  from assms(2) obtain i where i: "i < length ts" "ts ! i = t" by (auto simp: in_set_conv_nth)
  have "holds t (snd e) = 1" using assms(3) by (auto simp: holds_def)
  with owners_ge_holds[OF i(1), of "snd e"] i(2) d(3) have "0 < define_ref_count d" by simp
  moreover have "read_name h (fst e) = Some (define_name d)" using d by simp
  ultimately show thesis using d that by blast
qed

lemma tables_inv_distinct_snd:
  assumes "tables_inv h ts" "t \<in> set ts"
  shows "distinct (map snd t)"
proof -
  have d: "distinct (map (\<lambda>e. read_name h (fst e)) t)" using assms unfolding tables_inv_iff by blast
  have "\<forall>e\<in>set t. read_name h (fst e) = read_name h (Name_of (snd e))"
    using assms unfolding tables_inv_iff by auto
  then have "map (\<lambda>e. read_name h (fst e)) t = map (\<lambda>a. read_name h (Name_of a)) (map snd t)"
    by (simp add: comp_def)
  with d show ?thesis by (metis distinct_map)
qed

lemma tables_inv_keys_readable:
  assumes "tables_inv h ts" "t \<in> set ts"
  shows "keys_readable h t"
  unfolding keys_readable_def list_all_iff
  using tables_inv_entry[OF assms] by (metis option.distinct(1))


lemma holds_le_1: "holds t v \<le> 1" by (simp add: holds_def)

lemma holds_1_iff: "holds t v = 1 \<longleftrightarrow> v \<in> snd ` set t" by (simp add: holds_def)

lemma holds_0_iff: "holds t v = 0 \<longleftrightarrow> v \<notin> snd ` set t" by (simp add: holds_def)

lemma owners_0: "(\<forall>t\<in>set ts. holds t v = 0) \<Longrightarrow> owners ts v = 0"
  by (simp add: owners_def)

lemma tables_inv_change:
  assumes inv: "tables_inv h ts" and i: "i < length ts"
    and ent: "\<And>e. e \<in> set t' \<Longrightarrow> e \<in> set (ts ! i) \<or>
               (e = (Name_of a, a) \<and> (\<forall>t\<in>set ts. holds t a = 0) \<and>
                (\<exists>d. heap_lookup h' a = Some d \<and> 0 < define_ref_count d))"
    and dist: "distinct (map (\<lambda>e. read_name h' (fst e)) t')"
    and kept: "\<And>v d. heap_lookup h v = Some d \<Longrightarrow> \<not> (holds (ts ! i) v = 1 \<and> holds t' v = 0)
               \<Longrightarrow> heap_lookup h' v = Some d"
    and dropped: "\<And>v d. heap_lookup h v = Some d \<Longrightarrow> holds (ts ! i) v = 1 \<Longrightarrow> holds t' v = 0
               \<Longrightarrow> 1 < define_ref_count d
               \<Longrightarrow> heap_lookup h' v = Some (d\<lparr>define_ref_count := define_ref_count d - 1\<rparr>)"
  shows "tables_inv h' (ts[i := t']) \<and>
         (\<forall>j. j < length ts \<longrightarrow> j \<noteq> i \<longrightarrow> table_view h' (ts ! j) = table_view h (ts ! j))"
proof -
  let ?ts' = "ts[i := t']"
  have other: "\<exists>d d'. heap_lookup h (snd e) = Some d \<and> heap_lookup h' (snd e) = Some d'
        \<and> fst e = Name_of (snd e)
        \<and> define_name d' = define_name d \<and> define_tokens d' = define_tokens d
        \<and> owners ?ts' (snd e) \<le> define_ref_count d'"
    if j: "j < length ts" "j \<noteq> i" and e: "e \<in> set (ts ! j)" for j e
  proof -
    have mem: "ts ! j \<in> set ts" using j by simp
    from tables_inv_entry[OF inv mem e] obtain d where d: "fst e = Name_of (snd e)"
      "heap_lookup h (snd e) = Some d" "owners ts (snd e) \<le> define_ref_count d" by blast
    have hj: "holds (ts ! j) (snd e) = 1" using e by (auto simp: holds_def)
    have ou: "owners ?ts' (snd e) = owners ts (snd e) + holds t' (snd e) - holds (ts ! i) (snd e)"
      by (rule owners_update[OF i])
    show ?thesis
    proof (cases "holds (ts ! i) (snd e) = 1 \<and> holds t' (snd e) = 0")
      case True
      have "2 \<le> owners ts (snd e)" using owners_two[OF i j(1), of "snd e"] j(2) hj True by simp
      with d(3) have "1 < define_ref_count d" by simp
      from dropped[OF d(2) _ _ this] True
      have "heap_lookup h' (snd e) = Some (d\<lparr>define_ref_count := define_ref_count d - 1\<rparr>)" by simp
      moreover have "owners ?ts' (snd e) \<le> define_ref_count d - 1" using ou True d(3) by simp
      ultimately show ?thesis using d by simp
    next
      case False
      from kept[OF d(2) False] have h': "heap_lookup h' (snd e) = Some d" .
      have "holds t' (snd e) \<le> holds (ts ! i) (snd e)"
      proof (rule ccontr)
        assume "\<not> ?thesis"
        then have a1: "holds t' (snd e) = 1" and a0: "holds (ts ! i) (snd e) = 0"
          using holds_le_1[of t' "snd e"] by (auto simp: holds_def split: if_splits)
        from a1 have "snd e \<in> snd ` set t'" by (simp add: holds_def split: if_splits)
        then obtain e' where e': "e' \<in> set t'" "snd e' = snd e" by auto
        from ent[OF e'(1)] show False
        proof
          assume "e' \<in> set (ts ! i)"
          then have "snd e \<in> snd ` set (ts ! i)" using e'(2) by (metis imageI)
          with a0 show False by (simp add: holds_def)
        next
          assume "e' = (Name_of a, a) \<and> (\<forall>t\<in>set ts. holds t a = 0) \<and>
                (\<exists>d. heap_lookup h' a = Some d \<and> 0 < define_ref_count d)"
          with e'(2) mem hj show False by auto
        qed
      qed
      then have "owners ?ts' (snd e) \<le> owners ts (snd e)" using ou by simp
      with h' d show ?thesis by auto
    qed
  qed
  have views: "table_view h' (ts ! j) = table_view h (ts ! j)" if j: "j < length ts" "j \<noteq> i" for j
  proof -
    have "(read_name h' (fst e), define_body h' (snd e)) = (read_name h (fst e), define_body h (snd e))"
      if "e \<in> set (ts ! j)" for e
      using other[OF j that] by (auto simp: define_body_def)
    then show ?thesis by (simp add: table_view_def)
  qed
  have "tables_inv h' ?ts'"
    unfolding tables_inv_iff
  proof (rule ballI)
    fix u assume "u \<in> set ?ts'"
    then obtain j where j: "j < length ts" "u = ?ts' ! j" by (auto simp: in_set_conv_nth)
    have A: "distinct (map (\<lambda>e. read_name h' (fst e)) u)"
    proof (cases "j = i")
      case True
      then show ?thesis using j i dist by simp
    next
      case False
      then have u: "u = ts ! j" using j by simp
      have m: "map (\<lambda>e. read_name h' (fst e)) u = map (\<lambda>e. read_name h (fst e)) u"
        using views[OF j(1) False] by (simp add: table_view_def u comp_def)
      have "distinct (map (\<lambda>e. read_name h (fst e)) u)"
        using inv j(1) unfolding tables_inv_iff u by simp
      then show ?thesis unfolding m .
    qed
    have B: "fst e = Name_of (snd e) \<and>
         (\<exists>d. heap_lookup h' (snd e) = Some d \<and> owners ?ts' (snd e) \<le> define_ref_count d)"
      if e: "e \<in> set u" for e
    proof (cases "j = i")
      case False
      then have u: "u = ts ! j" using j by simp
      from other[OF j(1) False e[unfolded u]] show ?thesis by auto
    next
      case True
      then have u: "u = t'" using j i by simp
      have ou: "owners ?ts' (snd e) = owners ts (snd e) + holds t' (snd e) - holds (ts ! i) (snd e)"
        by (rule owners_update[OF i])
      have ht: "holds t' (snd e) = 1" using e u by (auto simp: holds_def)
      from ent[OF e[unfolded u]] show ?thesis
      proof
        assume a: "e \<in> set (ts ! i)"
        have mem: "ts ! i \<in> set ts" using i by simp
        from tables_inv_entry[OF inv mem a] obtain d where d: "fst e = Name_of (snd e)"
          "heap_lookup h (snd e) = Some d" "owners ts (snd e) \<le> define_ref_count d" by blast
        have "heap_lookup h' (snd e) = Some d" using kept[OF d(2)] ht by simp
        moreover have "holds (ts ! i) (snd e) = 1" using a by (auto simp: holds_def)
        ultimately show ?thesis using d ou ht by simp
      next
        assume a: "e = (Name_of a, a) \<and> (\<forall>t\<in>set ts. holds t a = 0) \<and>
                (\<exists>d. heap_lookup h' a = Some d \<and> 0 < define_ref_count d)"
        then have "owners ts (snd e) = 0" using owners_0[of ts a] by simp
        moreover have "holds (ts ! i) (snd e) = 0" using a i by simp
        ultimately have "owners ?ts' (snd e) = 1" using ou ht by simp
        with a show ?thesis by auto
      qed
    qed
  from A B show "distinct (map (\<lambda>e. read_name h' (fst e)) u) \<and>
        (\<forall>e\<in>set u. fst e = Name_of (snd e) \<and>
           (\<exists>d. heap_lookup h' (snd e) = Some d \<and> owners ?ts' (snd e) \<le> define_ref_count d))"
      by blast
  qed
  with views show ?thesis by blast
qed

subsection \<open>Changing one table among several\<close>

lemma key_matches_eq: "key_matches h s = (\<lambda>e. read_name h (fst e) = Some s)"
  by (simp add: key_matches_def fun_eq_iff)

lemma holds_mem: "e \<in> set t \<Longrightarrow> holds t (snd e) = 1"
  by (auto simp: holds_def)

lemma distinct_snd_unique:
  "distinct (map snd t) \<Longrightarrow> e \<in> set t \<Longrightarrow> e' \<in> set t \<Longrightarrow> snd e' = snd e \<Longrightarrow> e' = e"
  by (metis distinct_map inj_onD)

lemma tables_inv_same_heap:
  assumes inv: "tables_inv h ts"
    and same: "\<And>t e. t \<in> set ts \<Longrightarrow> e \<in> set t \<Longrightarrow> heap_lookup h' (snd e) = heap_lookup h (snd e)"
  shows "tables_inv h' ts \<and> (\<forall>t\<in>set ts. table_view h' t = table_view h t)"
proof -
  have n: "read_name h' (fst e) = read_name h (fst e)" if "t \<in> set ts" "e \<in> set t" for t e
    using tables_inv_entry[OF inv that] same[OF that] by (metis read_name.simps)
  have v: "table_view h' t = table_view h t" if "t \<in> set ts" for t
    using n[OF that] same[OF that] by (simp add: table_view_def define_body_def)
  have m: "map (\<lambda>e. read_name h' (fst e)) t = map (\<lambda>e. read_name h (fst e)) t" if "t \<in> set ts" for t
    using n[OF that] by simp
  have "tables_inv h' ts"
    unfolding tables_inv_iff
  proof (rule ballI)
    fix t assume t: "t \<in> set ts"
    have "distinct (map (\<lambda>e. read_name h (fst e)) t)" using inv t unfolding tables_inv_iff by blast
    then have A: "distinct (map (\<lambda>e. read_name h' (fst e)) t)" unfolding m[OF t] .
    have B: "fst e = Name_of (snd e) \<and>
        (\<exists>d. heap_lookup h' (snd e) = Some d \<and> owners ts (snd e) \<le> define_ref_count d)"
      if "e \<in> set t" for e
      using tables_inv_entry[OF inv t that] same[OF t that] by metis
    from A B show "distinct (map (\<lambda>e. read_name h' (fst e)) t) \<and>
        (\<forall>e\<in>set t. fst e = Name_of (snd e) \<and>
           (\<exists>d. heap_lookup h' (snd e) = Some d \<and> owners ts (snd e) \<le> define_ref_count d))"
      by blast
  qed
  with v show ?thesis by blast
qed

lemma tables_inv_fresh:
  assumes "tables_inv h ts" "t \<in> set ts"
  shows "holds t (length h) = 0"
proof -
  have "\<forall>e\<in>set t. snd e \<noteq> length h"
  proof
    fix e assume "e \<in> set t"
    from tables_inv_entry[OF assms this] heap_lookup_Some_less show "snd e \<noteq> length h"
      by (metis less_irrefl)
  qed
  then have "length h \<notin> snd ` set t" by auto
  then show ?thesis by (simp add: holds_def)
qed

lemma tables_inv_alloc:
  assumes inv: "tables_inv h ts"
  shows "tables_inv (h @ [x]) ts \<and> (\<forall>t\<in>set ts. table_view (h @ [x]) t = table_view h t)"
proof (rule tables_inv_same_heap[OF inv])
  fix t e assume "t \<in> set ts" "e \<in> set t"
  from tables_inv_entry[OF inv this] obtain d where "heap_lookup h (snd e) = Some d" by blast
  then have "snd e < length h" by (rule heap_lookup_Some_less)
  then show "heap_lookup (h @ [x]) (snd e) = heap_lookup h (snd e)"
    by (simp add: heap_lookup_append)
qed

lemma table_remove_inv:
  assumes inv: "tables_inv h ts" and i: "i < length ts"
  shows "\<exists>h' t'. g_hash_table_remove h (ts ! i) s = Some (h', t') \<and> tables_inv h' (ts[i := t'])
          \<and> (\<forall>j. j < length ts \<longrightarrow> j \<noteq> i \<longrightarrow> table_view h' (ts ! j) = table_view h (ts ! j))
          \<and> g_hash_table_lookup h' t' s = Some None"
proof -
  let ?t = "ts ! i"
  let ?N = "\<lambda>e. read_name h (fst e)"
  have mem: "?t \<in> set ts" using i by simp
  have kr: "keys_readable h ?t" by (rule tables_inv_keys_readable[OF inv mem])
  have dn: "distinct (map ?N ?t)" using inv mem unfolding tables_inv_iff by blast
  have ds: "distinct (map snd ?t)" by (rule tables_inv_distinct_snd[OF inv mem])
  show ?thesis
  proof (cases "find (key_matches h s) ?t")
    case None
    then have "g_hash_table_lookup h ?t s = Some None"
      using kr by (simp add: g_hash_table_lookup_def)
    then show ?thesis using None kr inv by (simp add: g_hash_table_remove_def)
  next
    case (Some e)
    then have f: "find (\<lambda>e. ?N e = Some s) ?t = Some e" by (simp add: key_matches_eq)
    from find_Some_mem[OF f] have e: "e \<in> set ?t" "?N e = Some s" by auto
    from tables_inv_entry[OF inv mem e(1)] obtain d where d: "fst e = Name_of (snd e)"
      "heap_lookup h (snd e) = Some d" "0 < define_ref_count d" by blast
    define v where "v = snd e"
    define h' where "h' = h[v := (if define_ref_count d = 1 then None
                         else Some (d\<lparr>define_ref_count := define_ref_count d - 1\<rparr>))]"
    define t' where "t' = remove_first (key_matches h s) ?t"
    have un: "gsk_sl_define_unref h v = Some h'"
      unfolding h'_def v_def by (rule define_unref_live[OF d(2,3)])
    have res: "g_hash_table_remove h ?t s = Some (h', t')"
      using kr Some un by (simp add: g_hash_table_remove_def t'_def v_def)
    have st: "set t' = set ?t - {e}"
      unfolding key_matches_eq t'_def by (rule set_remove_first[OF dn f])
    have nv: "\<forall>e'\<in>set t'. snd e' \<noteq> v"
      using st distinct_snd_unique[OF ds e(1)] by (auto simp: v_def)
    then have "v \<notin> snd ` set t'" by auto
    then have h0: "holds t' v = 0" by (simp add: holds_def)
    have only: "b = v" if "holds ?t b = 1" "holds t' b = 0" for b
    proof -
      from that(1) obtain e' where "e' \<in> set ?t" "snd e' = b" by (auto simp: holds_def split: if_splits)
      with that(2) st show ?thesis by (cases "e' = e") (auto simp: holds_def v_def split: if_splits)
    qed
    have other: "heap_lookup h' b = heap_lookup h b" if "b \<noteq> v" for b
      using that by (simp add: heap_lookup_update h'_def)
    have names': "\<forall>e'\<in>set t'. read_name h' (fst e') = read_name h (fst e')"
    proof
      fix e' assume a: "e' \<in> set t'"
      then have "e' \<in> set ?t" using st by simp
      from tables_inv_entry[OF inv mem this] have "fst e' = Name_of (snd e')" by blast
      then show "read_name h' (fst e') = read_name h (fst e')"
        using other[of "snd e'"] nv a by (metis read_name.simps)
    qed
    have m: "map (\<lambda>e. read_name h' (fst e)) t' = map ?N t'" using names' by simp
    have "distinct (map ?N t')" unfolding t'_def by (rule map_remove_first_distinct[OF dn])
    then have dist: "distinct (map (\<lambda>e. read_name h' (fst e)) t')" unfolding m .
    have chg: "tables_inv h' (ts[i := t']) \<and>
         (\<forall>j. j < length ts \<longrightarrow> j \<noteq> i \<longrightarrow> table_view h' (ts ! j) = table_view h (ts ! j))"
    proof (rule tables_inv_change[OF inv i _ dist, where a = 0])
      fix e' assume "e' \<in> set t'"
      then show "e' \<in> set ?t \<or> (e' = (Name_of 0, 0) \<and> (\<forall>t\<in>set ts. holds t 0 = 0) \<and>
                (\<exists>d. heap_lookup h' 0 = Some d \<and> 0 < define_ref_count d))"
        using st by simp
    next
      fix b d' assume a: "heap_lookup h b = Some d'" "\<not> (holds ?t b = 1 \<and> holds t' b = 0)"
      have "b \<noteq> v" using a(2) h0 holds_mem[OF e(1)] by (auto simp: v_def)
      then show "heap_lookup h' b = Some d'" using other[of b] a(1) by simp
    next
      fix b d' assume a: "heap_lookup h b = Some d'" "holds ?t b = 1" "holds t' b = 0" "1 < define_ref_count d'"
      from only[OF a(2,3)] have b: "b = v" .
      with a d have "d' = d" by (simp add: v_def)
      then show "heap_lookup h' b = Some (d'\<lparr>define_ref_count := define_ref_count d' - 1\<rparr>)"
        using a(4) b heap_lookup_Some_less[OF d(2)] by (simp add: heap_lookup_update h'_def v_def)
    qed
    have "t' \<in> set (ts[i := t'])" using i by (simp add: set_update_memI)
    from tables_inv_keys_readable[OF conjunct1[OF chg] this] have kr': "keys_readable h' t'" .
    have "\<forall>e'\<in>set t'. \<not> key_matches h' s e'"
    proof
      fix e' assume a: "e' \<in> set t'"
      then have e't: "e' \<in> set ?t" "e' \<noteq> e" using st by auto
      have "?N e' \<noteq> ?N e" using dn e(1) e't by (metis distinct_map inj_onD)
      then show "\<not> key_matches h' s e'" using names' a e(2) by (simp add: key_matches_def)
    qed
    then have "find (key_matches h' s) t' = None" by (simp add: find_None_iff)
    then have "g_hash_table_lookup h' t' s = Some None" using kr' by (simp add: g_hash_table_lookup_def)
    with res chg show ?thesis by blast
  qed
qed

lemma lookup_found:
  assumes "keys_readable h t" "distinct (map (\<lambda>e. read_name h (fst e)) t)" "e \<in> set t"
    "read_name h (fst e) = Some s"
  shows "g_hash_table_lookup h t s = Some (Some (snd e))"
proof -
  have "find (\<lambda>x. read_name h (fst x) = read_name h (fst e)) t = Some e"
    by (rule find_distinct_key[OF assms(2,3)])
  then show ?thesis using assms(1,4) by (simp add: g_hash_table_lookup_def key_matches_eq)
qed

lemma table_replace_inv:
  assumes inv: "tables_inv h ts" and i: "i < length ts"
    and a: "heap_lookup h a = Some dn" and rc: "0 < define_ref_count dn"
    and fresh: "\<forall>t\<in>set ts. holds t a = 0"
  shows "\<exists>h' t'. g_hash_table_replace h (ts ! i) (Name_of a) a = Some (h', t')
          \<and> tables_inv h' (ts[i := t'])
          \<and> (\<forall>j. j < length ts \<longrightarrow> j \<noteq> i \<longrightarrow> table_view h' (ts ! j) = table_view h (ts ! j))
          \<and> g_hash_table_lookup h' t' (define_name dn) = Some (Some a)
          \<and> heap_lookup h' a = Some dn"
proof -
  let ?t = "ts ! i"
  let ?N = "\<lambda>e. read_name h (fst e)"
  define s where "s = define_name dn"
  define new where "new = (Name_of a, a)"
  have mem: "?t \<in> set ts" using i by simp
  have kr: "keys_readable h ?t" by (rule tables_inv_keys_readable[OF inv mem])
  have dn: "distinct (map ?N ?t)" using inv mem unfolding tables_inv_iff by blast
  have ds: "distinct (map snd ?t)" by (rule tables_inv_distinct_snd[OF inv mem])
  have rn: "read_name h (Name_of a) = Some s" using a by (simp add: s_def)
  have a_notin: "a \<notin> snd ` set ?t" using fresh mem by (auto simp: holds_def split: if_splits)
  have final: ?thesis
    if res: "g_hash_table_replace h ?t (Name_of a) a = Some (h', t')"
      and st: "new \<in> set t'" "\<forall>e'\<in>set t'. e' = new \<or> e' \<in> set ?t"
      and dist: "distinct (map (\<lambda>e. read_name h' (fst e)) t')"
      and ha: "heap_lookup h' a = Some dn"
      and kept: "\<And>v d. heap_lookup h v = Some d \<Longrightarrow> \<not> (holds ?t v = 1 \<and> holds t' v = 0)
               \<Longrightarrow> heap_lookup h' v = Some d"
      and dropped: "\<And>v d. heap_lookup h v = Some d \<Longrightarrow> holds ?t v = 1 \<Longrightarrow> holds t' v = 0
               \<Longrightarrow> 1 < define_ref_count d
               \<Longrightarrow> heap_lookup h' v = Some (d\<lparr>define_ref_count := define_ref_count d - 1\<rparr>)"
    for h' t'
  proof -
    have chg: "tables_inv h' (ts[i := t']) \<and>
         (\<forall>j. j < length ts \<longrightarrow> j \<noteq> i \<longrightarrow> table_view h' (ts ! j) = table_view h (ts ! j))"
    proof (rule tables_inv_change[OF inv i _ dist kept dropped, where a = a])
      fix e' assume "e' \<in> set t'"
      then show "e' \<in> set ?t \<or> (e' = (Name_of a, a) \<and> (\<forall>t\<in>set ts. holds t a = 0) \<and>
                (\<exists>d. heap_lookup h' a = Some d \<and> 0 < define_ref_count d))"
        using st(2) fresh ha rc by (auto simp: new_def)
    qed
    have "t' \<in> set (ts[i := t'])" using i by (simp add: set_update_memI)
    from tables_inv_keys_readable[OF conjunct1[OF chg] this] have kr': "keys_readable h' t'" .
    have "read_name h' (fst new) = Some s" using ha by (simp add: new_def s_def)
    from lookup_found[OF kr' dist st(1) this]
    have "g_hash_table_lookup h' t' s = Some (Some a)" by (simp add: new_def)
    with res chg ha show ?thesis unfolding s_def by blast
  qed
  show ?thesis
  proof (cases "find (key_matches h s) ?t")
    case None
    then have nm: "\<forall>e\<in>set ?t. ?N e \<noteq> Some s" by (auto simp: find_None_iff key_matches_def)
    have res: "g_hash_table_replace h ?t (Name_of a) a = Some (h, ?t @ [new])"
      using kr None by (simp add: g_hash_table_replace_def new_def rn del: read_name.simps)
    have hs: "holds ?t v = 1 \<Longrightarrow> holds (?t @ [new]) v = 1" for v by (auto simp: holds_def)
    show ?thesis
    proof (rule final[OF res])
      show "distinct (map (\<lambda>e. read_name h (fst e)) (?t @ [new]))"
        using dn nm rn by (auto simp: new_def)
    qed (use a hs in \<open>auto simp: new_def\<close>)
  next
    case (Some e)
    then have f: "find (\<lambda>e. ?N e = Some s) ?t = Some e" by (simp add: key_matches_eq)
    from find_Some_mem[OF f] have e: "e \<in> set ?t" "?N e = Some s" by auto
    from tables_inv_entry[OF inv mem e(1)] obtain d where d: "fst e = Name_of (snd e)"
      "heap_lookup h (snd e) = Some d" "0 < define_ref_count d" by blast
    define v where "v = snd e"
    define h' where "h' = h[v := (if define_ref_count d = 1 then None
                         else Some (d\<lparr>define_ref_count := define_ref_count d - 1\<rparr>))]"
    define t' where "t' = replace_first (key_matches h s) new ?t"
    have va: "v \<noteq> a" using e(1) a_notin by (auto simp: v_def)
    have un: "gsk_sl_define_unref h v = Some h'"
      unfolding h'_def v_def by (rule define_unref_live[OF d(2,3)])
    have res: "g_hash_table_replace h ?t (Name_of a) a = Some (h', t')"
      using kr Some un by (simp add: g_hash_table_replace_def t'_def v_def new_def rn del: read_name.simps)
    have st: "set t' = insert new (set ?t - {e})"
      unfolding key_matches_eq t'_def by (rule set_replace_first[OF dn f])
    have other: "heap_lookup h' b = heap_lookup h b" if "b \<noteq> v" for b
      using that by (simp add: heap_lookup_update h'_def)
    have ha: "heap_lookup h' a = Some dn" using other[of a] va a by simp
    have nv: "\<forall>e'\<in>set ?t. e' \<noteq> e \<longrightarrow> snd e' \<noteq> v"
      using distinct_snd_unique[OF ds e(1)] by (auto simp: v_def)
    have "v \<notin> snd ` set t'" using nv va st by (auto simp: new_def)
    then have h0: "holds t' v = 0" by (simp add: holds_def)
    have only: "b = v" if "holds ?t b = 1" "holds t' b = 0" for b
    proof -
      from that(1) obtain e' where "e' \<in> set ?t" "snd e' = b" by (auto simp: holds_def split: if_splits)
      with that(2) st show ?thesis by (cases "e' = e") (auto simp: holds_def v_def split: if_splits)
    qed
    have m: "map (\<lambda>e. read_name h' (fst e)) t' = map ?N ?t"
      unfolding t'_def
    proof (rule map_replace_first[OF Some _ _ dn])
      show "read_name h' (fst new) = ?N e" using ha e(2) by (simp add: new_def s_def)
      show "\<forall>e'\<in>set ?t. e' \<noteq> e \<longrightarrow> read_name h' (fst e') = ?N e'"
      proof (intro ballI impI)
        fix e' assume a: "e' \<in> set ?t" "e' \<noteq> e"
        from tables_inv_entry[OF inv mem a(1)] have "fst e' = Name_of (snd e')" by blast
        then show "read_name h' (fst e') = ?N e'"
          using other[of "snd e'"] nv a by (metis read_name.simps)
      qed
    qed
    have dist: "distinct (map (\<lambda>e. read_name h' (fst e)) t')" unfolding m by (rule dn)
    show ?thesis
    proof (rule final[OF res _ _ dist ha])
      show "new \<in> set t'" using st by simp
      show "\<forall>e'\<in>set t'. e' = new \<or> e' \<in> set ?t" using st by auto
    next
      fix b d' assume a: "heap_lookup h b = Some d'" "\<not> (holds ?t b = 1 \<and> holds t' b = 0)"
      have "b \<noteq> v" using a(2) h0 holds_mem[OF e(1)] by (auto simp: v_def)
      then show "heap_lookup h' b = Some d'" using other[of b] a(1) by simp
    next
      fix b d' assume a: "heap_lookup h b = Some d'" "holds ?t b = 1" "holds t' b = 0" "1 < define_ref_count d'"
      from only[OF a(2,3)] have b: "b = v" .
      with a d have "d' = d" by (simp add: v_def)
      then show "heap_lookup h' b = Some (d'\<lparr>define_ref_count := define_ref_count d' - 1\<rparr>)"
        using a(4) b heap_lookup_Some_less[OF d(2)] by (simp add: heap_lookup_update h'_def v_def)
    qed
  qed
qed

subsection \<open>What add_define and remove_define do to the tables\<close>

lemma add_define_valid_unfold:
  assumes "string_is_valid_identifier T nm" "error = None \<or> error = Some None"
  shows "gsk_sl_compiler_add_define T h (Some c) (Some nm) defn error =
     do {
       (tokenizer', real_error, h2) \<leftarrow>
          read_define_tokens T (tokenizer_new T (define_source defn)) None
            (h @ [Some \<lparr>define_name = nm, define_source_file = None, define_tokens = [],
                        define_ref_count = 1\<rparr>]) (length h);
       if real_error = None then do {
         (h3, defines') \<leftarrow>
           g_hash_table_replace h2 (compiler_defines c) (Name_of (length h)) (length h);
         Some (h3, Some (c\<lparr>compiler_defines := defines'\<rparr>), error, True)
       }
       else do {
         h3 \<leftarrow> gsk_sl_define_unref h2 (length h);
         Some (h3, Some c, g_propagate_error error real_error, False)
       }
     }"
  using assms
  unfolding gsk_sl_compiler_add_define_def gsk_sl_define_get_name_def define_source_def
    gsk_sl_define_new_def Let_def
  by auto

lemma add_define_loop_result:
  assumes st: "token_stream T n (tokenizer_new T (define_source defn)) = Some (evs, ts_end)"
  shows "read_define_tokens T (tokenizer_new T (define_source defn)) None
            (h @ [Some \<lparr>define_name = nm, define_source_file = None, define_tokens = [],
                        define_ref_count = 1\<rparr>]) (length h) =
         Some (ts_end, run_error_func (reported evs) None,
               h @ [Some \<lparr>define_name = nm, define_source_file = None,
                           define_tokens = stored_tokens T evs, define_ref_count = 1\<rparr>])"
proof -
  let ?d0 = "\<lparr>define_name = nm, define_source_file = None, define_tokens = [],
               define_ref_count = 1\<rparr>"
  have lk: "heap_lookup (h @ [Some ?d0]) (length h) = Some ?d0" by (simp add: heap_lookup_append)
  show ?thesis
    using read_define_tokens_stream[OF st lk, of None] by simp
qed

lemma add_define_fatal_result:
  assumes valid: "string_is_valid_identifier T nm" and slot: "error = None \<or> error = Some None"
    and st: "token_stream T n (tokenizer_new T (define_source defn)) = Some (evs, ts_end)"
    and ff: "first_fatal (reported evs) = Some (fatal, location, token, err)"
  shows "gsk_sl_compiler_add_define T h (Some c) (Some nm) defn error =
           Some (h @ [None], Some c,
                 g_propagate_error error
                   (Some (err\<lparr>error_message := location_tag location @ error_message err\<rparr>)),
                 False)"
proof -
  have re: "run_error_func (reported evs) None =
      Some (err\<lparr>error_message := location_tag location @ error_message err\<rparr>)"
    by (simp add: run_error_func_None ff)
  let ?dn = "\<lparr>define_name = nm, define_source_file = None,
               define_tokens = stored_tokens T evs, define_ref_count = 1\<rparr>"
  have "gsk_sl_define_unref (h @ [Some ?dn]) (length h) = Some (h @ [None])"
    by (simp add: gsk_sl_define_unref_def heap_lookup_append)
  then show ?thesis
    unfolding add_define_valid_unfold[OF valid slot] add_define_loop_result[OF st]
    by (simp add: re)
qed

lemma add_define_success_result:
  assumes valid: "string_is_valid_identifier T nm" and slot: "error = None \<or> error = Some None"
    and st: "token_stream T n (tokenizer_new T (define_source defn)) = Some (evs, ts_end)"
    and ff: "first_fatal (reported evs) = None"
    and inv: "tables_inv h ts" and i: "i < length ts" and c: "compiler_defines c = ts ! i"
  shows "\<exists>h' t'. gsk_sl_compiler_add_define T h (Some c) (Some nm) defn error =
           Some (h', Some (c\<lparr>compiler_defines := t'\<rparr>), error, True)
         \<and> tables_inv h' (ts[i := t'])
         \<and> (\<forall>j. j < length ts \<longrightarrow> j \<noteq> i \<longrightarrow> table_view h' (ts ! j) = table_view h (ts ! j))
         \<and> g_hash_table_lookup h' t' nm = Some (Some (length h))
         \<and> heap_lookup h' (length h) =
             Some \<lparr>define_name = nm, define_source_file = None,
                   define_tokens = stored_tokens T evs, define_ref_count = 1\<rparr>"
proof -
  have re: "run_error_func (reported evs) None = None"
    by (simp add: run_error_func_None ff)
  let ?dn = "\<lparr>define_name = nm, define_source_file = None,
               define_tokens = stored_tokens T evs, define_ref_count = 1\<rparr>"
  let ?h2 = "h @ [Some ?dn]"
  from tables_inv_alloc[OF inv, of "Some ?dn"]
  have inv2: "tables_inv ?h2 ts" and v2: "\<forall>t\<in>set ts. table_view ?h2 t = table_view h t" by auto
  have lk: "heap_lookup ?h2 (length h) = Some ?dn" by (simp add: heap_lookup_append)
  have fresh: "\<forall>t\<in>set ts. holds t (length h) = 0" using tables_inv_fresh[OF inv] by blast
  from table_replace_inv[OF inv2 i lk _ fresh]
  obtain h' t' where r: "g_hash_table_replace ?h2 (ts ! i) (Name_of (length h)) (length h) = Some (h', t')"
    "tables_inv h' (ts[i := t'])"
    "\<forall>j. j < length ts \<longrightarrow> j \<noteq> i \<longrightarrow> table_view h' (ts ! j) = table_view ?h2 (ts ! j)"
    "g_hash_table_lookup h' t' nm = Some (Some (length h))"
    "heap_lookup h' (length h) = Some ?dn"
    by auto
  have "gsk_sl_compiler_add_define T h (Some c) (Some nm) defn error =
           Some (h', Some (c\<lparr>compiler_defines := t'\<rparr>), error, True)"
    using r(1) unfolding add_define_valid_unfold[OF valid slot] add_define_loop_result[OF st]
    by (simp add: re c)
  moreover have "\<forall>j. j < length ts \<longrightarrow> j \<noteq> i \<longrightarrow> table_view h' (ts ! j) = table_view h (ts ! j)"
    using r(3) v2 by simp
  ultimately show ?thesis using r(2,4,5) by blast
qed

lemma add_define_returns_stream:
  assumes valid: "string_is_valid_identifier T nm" and slot: "error = None \<or> error = Some None"
    and res: "gsk_sl_compiler_add_define T h (Some c) (Some nm) defn error = Some r"
  shows "\<exists>n evs ts_end. token_stream T n (tokenizer_new T (define_source defn)) = Some (evs, ts_end)"
proof -
  from res obtain y where "read_define_tokens T (tokenizer_new T (define_source defn)) None
            (h @ [Some \<lparr>define_name = nm, define_source_file = None, define_tokens = [],
                        define_ref_count = 1\<rparr>]) (length h) = Some y"
    unfolding add_define_valid_unfold[OF valid slot] by (auto split: Option.bind_splits)
  from read_define_tokens_has_stream[OF this] show ?thesis .
qed

lemma add_define_step:
  assumes inv: "tables_inv h ts" and i: "i < length ts" and c: "compiler_defines c = ts ! i"
    and res: "gsk_sl_compiler_add_define T h (Some c) name defn error = Some (h', c', error', r)"
  shows "\<exists>c''. c' = Some c'' \<and> tables_inv h' (ts[i := compiler_defines c''])
         \<and> (\<forall>j. j < length ts \<longrightarrow> j \<noteq> i \<longrightarrow> table_view h' (ts ! j) = table_view h (ts ! j))"
proof -
  have same: ?thesis if "h' = h" "c' = Some c"
    using that inv c i by (simp add: list_update_same_conv)
  show ?thesis
  proof (cases name)
    case None
    then show ?thesis using res same by (simp add: gsk_sl_compiler_add_define_def)
  next
    case (Some nm)
    show ?thesis
    proof (cases "error = None \<or> error = Some None")
      case False
      then show ?thesis using res same Some by (simp add: gsk_sl_compiler_add_define_def)
    next
      case slot: True
      show ?thesis
      proof (cases "string_is_valid_identifier T nm")
        case False
        then show ?thesis using res same Some slot
          by (auto simp: gsk_sl_compiler_add_define_def)
      next
        case valid: True
        from add_define_returns_stream[OF valid slot res[unfolded Some]]
        obtain n evs ts_end where
          st: "token_stream T n (tokenizer_new T (define_source defn)) = Some (evs, ts_end)" by blast
        show ?thesis
        proof (cases "first_fatal (reported evs)")
          case None
          from add_define_success_result[OF valid slot st None inv i c] res Some
          show ?thesis by auto
        next
          case (Some x)
          obtain fatal location token err where x: "x = (fatal, location, token, err)" by (cases x)
          from add_define_fatal_result[OF valid slot st Some[unfolded x]] res \<open>name = Some nm\<close>
          have "h' = h @ [None]" "c' = Some c" by auto
          then show ?thesis using tables_inv_alloc[OF inv, of None] c i
            by (simp add: list_update_same_conv)
        qed
      qed
    qed
  qed
qed

lemma remove_define_step:
  assumes inv: "tables_inv h ts" and i: "i < length ts" and c: "compiler_defines c = ts ! i"
  shows "\<exists>h' c'. gsk_sl_compiler_remove_define h (Some c) name = Some (h', Some c')
         \<and> tables_inv h' (ts[i := compiler_defines c'])
         \<and> (\<forall>j. j < length ts \<longrightarrow> j \<noteq> i \<longrightarrow> table_view h' (ts ! j) = table_view h (ts ! j))
         \<and> (\<forall>nm. name = Some nm \<longrightarrow> g_hash_table_lookup h' (compiler_defines c') nm = Some None)"
proof (cases name)
  case None
  then show ?thesis using inv c i
    by (simp add: gsk_sl_compiler_remove_define_def list_update_same_conv)
next
  case (Some nm)
  from table_remove_inv[OF inv i, of nm] obtain h' t' where
    r: "g_hash_table_remove h (ts ! i) nm = Some (h', t')" "tables_inv h' (ts[i := t'])"
     "\<forall>j. j < length ts \<longrightarrow> j \<noteq> i \<longrightarrow> table_view h' (ts ! j) = table_view h (ts ! j)"
     "g_hash_table_lookup h' t' nm = Some None" by blast
  have "gsk_sl_compiler_remove_define h (Some c) name = Some (h', Some (c\<lparr>compiler_defines := t'\<rparr>))"
    using r(1) Some c by (simp add: gsk_sl_compiler_remove_define_def)
  then show ?thesis using r(2,3,4) Some by auto
qed

subsection \<open>What copy_defines does to the tables\<close>

lemma define_ref_live:
  "heap_lookup h v = Some d \<Longrightarrow>
   gsk_sl_define_ref h v = Some (h[v := Some (d\<lparr>define_ref_count := define_ref_count d + 1\<rparr>)])"
  by (simp add: gsk_sl_define_ref_def)

lemma holds_append: "holds (t @ [e]) b = (if b = snd e then 1 else holds t b)"
  by (auto simp: holds_def)

lemma tables_inv_share:
  assumes inv: "tables_inv h ts" and j: "j < length ts" and i: "i < length ts"
    and e: "e \<in> set (ts ! i)" and notin: "holds (ts ! j) (snd e) = 0"
    and newname: "\<forall>e'\<in>set (ts ! j). read_name h (fst e') \<noteq> read_name h (fst e)"
    and d: "heap_lookup h (snd e) = Some d"
  shows "tables_inv (h[snd e := Some (d\<lparr>define_ref_count := define_ref_count d + 1\<rparr>)])
           (ts[j := ts ! j @ [e]])
         \<and> (\<forall>t\<in>set ts. table_view (h[snd e := Some (d\<lparr>define_ref_count := define_ref_count d + 1\<rparr>)]) t
               = table_view h t)"
proof -
  define v where "v = snd e"
  define h' where "h' = h[v := Some (d\<lparr>define_ref_count := define_ref_count d + 1\<rparr>)]"
  define ts' where "ts' = ts[j := ts ! j @ [e]]"
  have vl: "v < length h" using d heap_lookup_Some_less unfolding v_def by blast
  have lk: "heap_lookup h' b =
      (if b = v then Some (d\<lparr>define_ref_count := define_ref_count d + 1\<rparr>) else heap_lookup h b)" for b
    using vl by (auto simp: h'_def heap_lookup_update)
  have body: "define_body h' b = define_body h b" for b
    using d by (auto simp: define_body_def lk v_def)
  have name: "read_name h' k = read_name h k" for k
    using d by (cases k) (auto simp: lk v_def)
  have views: "table_view h' t = table_view h t" for t
    by (simp add: table_view_def body name)
  have ow: "owners ts' b = (if b = v then owners ts b + 1 else owners ts b)" for b
  proof -
    have "owners ts' b = owners ts b + holds (ts ! j @ [e]) b - holds (ts ! j) b"
      unfolding ts'_def by (rule owners_update[OF j])
    moreover have "holds (ts ! j) b \<le> owners ts b" by (rule owners_ge_holds[OF j])
    ultimately show ?thesis using notin by (auto simp: holds_append v_def)
  qed
  have ent: "fst x = Name_of (snd x) \<and>
        (\<exists>d'. heap_lookup h' (snd x) = Some d' \<and> owners ts' (snd x) \<le> define_ref_count d')"
    if "t \<in> set ts" "x \<in> set t" for t x
  proof -
    from tables_inv_entry[OF inv that] obtain dx where dx: "fst x = Name_of (snd x)"
      "heap_lookup h (snd x) = Some dx" "owners ts (snd x) \<le> define_ref_count dx" by blast
    show ?thesis
    proof (cases "snd x = v")
      case True
      then have "dx = d" using dx(2) d by (simp add: v_def)
      then show ?thesis using dx True by (simp add: lk ow)
    next
      case False
      then show ?thesis using dx by (simp add: lk ow)
    qed
  qed
  have "tables_inv h' ts'"
    unfolding tables_inv_iff
  proof (rule ballI)
    fix u assume "u \<in> set ts'"
    then obtain m where m: "m < length ts" "u = ts' ! m" by (auto simp: in_set_conv_nth ts'_def)
    have mem: "ts ! m \<in> set ts" "ts ! i \<in> set ts" "ts ! j \<in> set ts" using m i j by simp_all
    have A: "distinct (map (\<lambda>e. read_name h' (fst e)) u)"
    proof (cases "m = j")
      case True
      then have u: "u = ts ! j @ [e]" using m j by (simp add: ts'_def)
      have "distinct (map (\<lambda>e. read_name h (fst e)) (ts ! j))"
        using inv mem(3) unfolding tables_inv_iff by blast
      then show ?thesis using newname by (auto simp: u name)
    next
      case False
      then have u: "u = ts ! m" using m by (simp add: ts'_def)
      show ?thesis using inv mem(1) unfolding tables_inv_iff u by (simp add: name)
    qed
    have B: "fst x = Name_of (snd x) \<and>
        (\<exists>d'. heap_lookup h' (snd x) = Some d' \<and> owners ts' (snd x) \<le> define_ref_count d')"
      if x: "x \<in> set u" for x
    proof (cases "m = j")
      case True
      then have "u = ts ! j @ [e]" using m j by (simp add: ts'_def)
      with x have "x \<in> set (ts ! j) \<or> x = e" by auto
      then show ?thesis using ent[OF mem(3)] ent[OF mem(2) e] by blast
    next
      case False
      then have "u = ts ! m" using m by (simp add: ts'_def)
      with x show ?thesis using ent[OF mem(1)] by blast
    qed
    from A B show "distinct (map (\<lambda>e. read_name h' (fst e)) u) \<and>
        (\<forall>e\<in>set u. fst e = Name_of (snd e) \<and>
           (\<exists>d. heap_lookup h' (snd e) = Some d \<and> owners ts' (snd e) \<le> define_ref_count d))"
      by blast
  qed
  with views show ?thesis unfolding h'_def ts'_def v_def by blast
qed

lemma copy_defines_loop_inv:
  assumes inv: "tables_inv h (ts @ [p])" and i: "i < length ts" and split: "ts ! i = p @ r"
  shows "\<exists>h'. copy_defines_loop h p r = Some (h', p @ r) \<and> tables_inv h' (ts @ [p @ r])
          \<and> (\<forall>t. table_view h' t = table_view h t)
          \<and> (\<forall>b. heap_lookup h' b =
                (if b \<in> snd ` set r
                 then map_option (\<lambda>d. d\<lparr>define_ref_count := define_ref_count d + 1\<rparr>) (heap_lookup h b)
                 else heap_lookup h b))"
  using inv split
proof (induction r arbitrary: h p)
  case Nil
  then show ?case by simp
next
  case (Cons e r)
  obtain k v where kv: "e = (k, v)" by (cases e)
  let ?tsp = "ts @ [p]"
  have j: "length ts < length ?tsp" and i': "i < length ?tsp" using i by simp_all
  have tsi: "?tsp ! i = p @ e # r" using Cons.prems(2) i by (simp add: nth_append)
  have tsj: "?tsp ! length ts = p" by simp
  have mem: "p @ e # r \<in> set ?tsp" using i Cons.prems(2) by (metis nth_mem i' tsi)
  have ein: "e \<in> set (?tsp ! i)" unfolding tsi by simp
  from tables_inv_entry[OF Cons.prems(1) mem, of e] obtain d where d: "fst e = Name_of (snd e)"
    "heap_lookup h (snd e) = Some d" "read_name h (fst e) = Some (define_name d)" by auto
  have dn: "distinct (map (\<lambda>e. read_name h (fst e)) (p @ e # r))"
    using Cons.prems(1) mem unfolding tables_inv_iff by blast
  have ds: "distinct (map snd (p @ e # r))" by (rule tables_inv_distinct_snd[OF Cons.prems(1) mem])
  have notin: "holds (?tsp ! length ts) (snd e) = 0" using ds by (auto simp: holds_def)
  have "read_name h (fst e) \<notin> (\<lambda>e. read_name h (fst e)) ` set p" using dn by auto
  then have newname: "\<forall>e'\<in>set (?tsp ! length ts). read_name h (fst e') \<noteq> read_name h (fst e)"
    unfolding tsj by (metis imageI)
  define h1 where "h1 = h[snd e := Some (d\<lparr>define_ref_count := define_ref_count d + 1\<rparr>)]"
  from tables_inv_share[OF Cons.prems(1) j i' ein notin newname d(2)]
  have inv1: "tables_inv h1 (ts @ [p @ [e]])" and views1: "\<forall>t\<in>set ?tsp. table_view h1 t = table_view h t"
    by (simp_all add: h1_def)
  have vl: "snd e < length h" using d(2) by (rule heap_lookup_Some_less)
  have lk1: "heap_lookup h1 b =
      (if b = snd e then Some (d\<lparr>define_ref_count := define_ref_count d + 1\<rparr>) else heap_lookup h b)" for b
    using vl by (auto simp: h1_def heap_lookup_update)
  have name1: "read_name h1 k' = read_name h k'" for k'
    using d(2) by (cases k') (auto simp: lk1)
  have body1: "define_body h1 b = define_body h b" for b
    using d(2) by (auto simp: define_body_def lk1)
  have ref: "gsk_sl_define_ref h v = Some h1"
    using define_ref_live[OF d(2)] by (simp add: h1_def kv)
  have pmem: "p \<in> set ?tsp" by simp
  have kr: "keys_readable h1 p"
    using tables_inv_keys_readable[OF Cons.prems(1) pmem] by (simp add: keys_readable_def name1)
  have nf: "find (key_matches h1 (define_name d)) p = None"
    using newname d(3) by (auto simp: find_None_iff key_matches_def name1)
  have rep: "g_hash_table_replace h1 p k v = Some (h1, p @ [e])"
    using kr nf d(3) by (simp add: g_hash_table_replace_def name1 kv del: read_name.simps)
  have split': "ts ! i = (p @ [e]) @ r" using Cons.prems(2) by simp
  from Cons.IH[OF inv1 split'] obtain h' where
    h': "copy_defines_loop h1 (p @ [e]) r = Some (h', (p @ [e]) @ r)"
      "tables_inv h' (ts @ [(p @ [e]) @ r])" "\<forall>t. table_view h' t = table_view h1 t"
      "\<forall>b. heap_lookup h' b =
                (if b \<in> snd ` set r
                 then map_option (\<lambda>d. d\<lparr>define_ref_count := define_ref_count d + 1\<rparr>) (heap_lookup h1 b)
                 else heap_lookup h1 b)"
    by blast
  have "copy_defines_loop h p (e # r) = Some (h', p @ e # r)"
    using ref rep h'(1) by (simp add: kv)
  moreover have "tables_inv h' (ts @ [p @ e # r])" using h'(2) by simp
  moreover have "\<forall>t. table_view h' t = table_view h t"
    using h'(3) by (simp add: table_view_def name1 body1)
  moreover have "\<forall>b. heap_lookup h' b =
                (if b \<in> snd ` set (e # r)
                 then map_option (\<lambda>d. d\<lparr>define_ref_count := define_ref_count d + 1\<rparr>) (heap_lookup h b)
                 else heap_lookup h b)"
  proof
    fix b
    have "snd e \<notin> snd ` set r" using ds by auto
    then show "heap_lookup h' b =
                (if b \<in> snd ` set (e # r)
                 then map_option (\<lambda>d. d\<lparr>define_ref_count := define_ref_count d + 1\<rparr>) (heap_lookup h b)
                 else heap_lookup h b)"
      using h'(4) d(2) by (auto simp: lk1)
  qed
  ultimately show ?case by blast
qed

lemma tables_inv_add_empty: "tables_inv h ts \<Longrightarrow> tables_inv h (ts @ [[]])"
  by (simp add: tables_inv_iff owners_append holds_def)

lemma copy_defines_inv:
  assumes inv: "tables_inv h ts" and i: "i < length ts" and c: "compiler_defines c = ts ! i"
  shows "\<exists>h'. gsk_sl_compiler_copy_defines h (Some c) = Some (h', compiler_defines c)
          \<and> tables_inv h' (ts @ [compiler_defines c])
          \<and> (\<forall>t. table_view h' t = table_view h t)
          \<and> (\<forall>b. heap_lookup h' b =
                (if b \<in> snd ` set (compiler_defines c)
                 then map_option (\<lambda>d. d\<lparr>define_ref_count := define_ref_count d + 1\<rparr>) (heap_lookup h b)
                 else heap_lookup h b))"
  using copy_defines_loop_inv[OF tables_inv_add_empty[OF inv] i, of "compiler_defines c"] c
  by (simp add: gsk_sl_compiler_copy_defines_def)

subsection \<open>Concrete runs of the character tokenizer\<close>

lemma char_ops_simps [simp]:
  "string_is_valid_identifier char_tokenizer_ops = c_identifier"
  "tokenizer_new char_tokenizer_ops source =
     \<lparr>ct_rest = (case code_source_bytes source of None \<Rightarrow> [] | Some b \<Rightarrow> b),
      ct_location = \<lparr>lines = 0, line_bytes = 0\<rparr>\<rparr>"
  "tokenizer_get_location char_tokenizer_ops = ct_location"
  "tokenizer_read_token char_tokenizer_ops = char_tokenizer_read"
  "token_is_skipped char_tokenizer_ops t = (t = Space_token \<or> t = Error_token)"
  "token_is_eof char_tokenizer_ops t = (t = Eof_token)"
  by (simp_all add: char_tokenizer_ops_def)

lemma c_identifier_FOO: "c_identifier ''FOO''"
  by (simp add: c_identifier_def identifier_start_def identifier_char_def)

lemma stream_a_b:
  "token_stream char_tokenizer_ops 4 (tokenizer_new char_tokenizer_ops (define_source (Some ''a b''))) =
     Some ([(\<lparr>lines = 0, line_bytes = 0\<rparr>, Char_token CHR ''a'', []),
            (\<lparr>lines = 0, line_bytes = 1\<rparr>, Space_token, []),
            (\<lparr>lines = 0, line_bytes = 2\<rparr>, Char_token CHR ''b'', []),
            (\<lparr>lines = 0, line_bytes = 3\<rparr>, Eof_token, [])],
           \<lparr>ct_rest = [], ct_location = \<lparr>lines = 0, line_bytes = 3\<rparr>\<rparr>)"
  by (simp add: eval_nat_numeral define_source_def gsk_code_source_new_for_bytes_def
      char_tokenizer_read_def Let_def)

lemma stream_a_dollar_b:
  "token_stream char_tokenizer_ops 4 (tokenizer_new char_tokenizer_ops (define_source (Some ''a$b''))) =
     Some ([(\<lparr>lines = 0, line_bytes = 0\<rparr>, Char_token CHR ''a'', []),
            (\<lparr>lines = 0, line_bytes = 1\<rparr>, Error_token,
               [(True, \<lparr>lines = 0, line_bytes = 1\<rparr>, Error_token,
                 \<lparr>error_domain = gsk_sl_compiler_error_quark, error_code = 0,
                  error_message = ''unexpected character''\<rparr>)]),
            (\<lparr>lines = 0, line_bytes = 2\<rparr>, Char_token CHR ''b'', []),
            (\<lparr>lines = 0, line_bytes = 3\<rparr>, Eof_token, [])],
           \<lparr>ct_rest = [], ct_location = \<lparr>lines = 0, line_bytes = 3\<rparr>\<rparr>)"
  by (simp add: eval_nat_numeral define_source_def gsk_code_source_new_for_bytes_def
      char_tokenizer_read_def Let_def)

lemma stream_dollar_a:
  "token_stream char_tokenizer_ops 3 (tokenizer_new char_tokenizer_ops (define_source (Some ''$a''))) =
     Some ([(\<lparr>lines = 0, line_bytes = 0\<rparr>, Error_token,
               [(True, \<lparr>lines = 0, line_bytes = 0\<rparr>, Error_token,
                 \<lparr>error_domain = gsk_sl_compiler_error_quark, error_code = 0,
                  error_message = ''unexpected character''\<rparr>)]),
            (\<lparr>lines = 0, line_bytes = 1\<rparr>, Char_token CHR ''a'', []),
            (\<lparr>lines = 0, line_bytes = 2\<rparr>, Eof_token, [])],
           \<lparr>ct_rest = [], ct_location = \<lparr>lines = 0, line_bytes = 2\<rparr>\<rparr>)"
  by (simp add: eval_nat_numeral define_source_def gsk_code_source_new_for_bytes_def
      char_tokenizer_read_def Let_def)

lemma stream_q_dollar_a:
  "token_stream char_tokenizer_ops 4 (tokenizer_new char_tokenizer_ops (define_source (Some ''?$a''))) =
     Some ([(\<lparr>lines = 0, line_bytes = 0\<rparr>, Char_token CHR ''?'',
               [(False, \<lparr>lines = 0, line_bytes = 0\<rparr>, Char_token CHR ''?'',
                 \<lparr>error_domain = gsk_sl_compiler_warning_quark, error_code = 0,
                  error_message = ''suspicious character''\<rparr>)]),
            (\<lparr>lines = 0, line_bytes = 1\<rparr>, Error_token,
               [(True, \<lparr>lines = 0, line_bytes = 1\<rparr>, Error_token,
                 \<lparr>error_domain = gsk_sl_compiler_error_quark, error_code = 0,
                  error_message = ''unexpected character''\<rparr>)]),
            (\<lparr>lines = 0, line_bytes = 2\<rparr>, Char_token CHR ''a'', []),
            (\<lparr>lines = 0, line_bytes = 3\<rparr>, Eof_token, [])],
           \<lparr>ct_rest = [], ct_location = \<lparr>lines = 0, line_bytes = 3\<rparr>\<rparr>)"
  by (simp add: eval_nat_numeral define_source_def gsk_code_source_new_for_bytes_def
      char_tokenizer_read_def Let_def)

lemma stream_b:
  "token_stream char_tokenizer_ops 2 (tokenizer_new char_tokenizer_ops (define_source (Some ''b''))) =
     Some ([(\<lparr>lines = 0, line_bytes = 0\<rparr>, Char_token CHR ''b'', []),
            (\<lparr>lines = 0, line_bytes = 1\<rparr>, Eof_token, [])],
           \<lparr>ct_rest = [], ct_location = \<lparr>lines = 0, line_bytes = 1\<rparr>\<rparr>)"
  by (simp add: eval_nat_numeral define_source_def gsk_code_source_new_for_bytes_def
      char_tokenizer_read_def Let_def)

lemma printf_zu_3_1: "printf_zu 3 1 = ''  1''"
  by (simp add: printf_zu_def decimal.simps eval_nat_numeral)

lemma printf_zu_2_1: "printf_zu 2 1 = '' 1''"
  by (simp add: printf_zu_def decimal.simps eval_nat_numeral)

lemma printf_zu_2_0: "printf_zu 2 0 = '' 0''"
  by (simp add: printf_zu_def decimal.simps eval_nat_numeral)

lemma foo_inv: "tables_inv foo_heap [compiler_defines foo_compiler]"
  by (simp add: tables_inv_def table_ok_def entry_ok_def owners_def holds_def heap_lookup_def
      gsk_sl_define_get_name_def foo_heap_def foo_compiler_def)

lemma add_define_success_unfold:
  assumes valid: "string_is_valid_identifier T nm"
    and st: "token_stream T n (tokenizer_new T (define_source defn)) = Some (evs, ts_end)"
    and ff: "first_fatal (reported evs) = None"
  shows "gsk_sl_compiler_add_define T h (Some c) (Some nm) defn (Some None) =
     do {
       (h3, defines') \<leftarrow>
         g_hash_table_replace
           (h @ [Some \<lparr>define_name = nm, define_source_file = None,
                       define_tokens = stored_tokens T evs, define_ref_count = 1\<rparr>])
           (compiler_defines c) (Name_of (length h)) (length h);
       Some (h3, Some (c\<lparr>compiler_defines := defines'\<rparr>), Some None, True)
     }"
proof -
  have re: "run_error_func (reported evs) None = None"
    by (simp add: run_error_func_None ff)
  have slot: "Some None = None \<or> Some None = (Some None :: error_slot)" by simp
  show ?thesis
    unfolding add_define_valid_unfold[OF valid slot] add_define_loop_result[OF st]
    by (simp add: re)
qed

lemma foo_copy:
  "gsk_sl_compiler_copy_defines foo_heap (Some foo_compiler) =
     Some ([Some \<lparr>define_name = ''FOO'', define_source_file = None, define_tokens = [],
                  define_ref_count = 2\<rparr>],
           [(Name_of 0, 0)])"
  by (simp add: gsk_sl_compiler_copy_defines_def foo_heap_def foo_compiler_def
      gsk_sl_define_ref_def heap_lookup_def g_hash_table_replace_def keys_readable_def)

lemma foo_redefine:
  "gsk_sl_compiler_add_define char_tokenizer_ops
     [Some \<lparr>define_name = ''FOO'', define_source_file = None, define_tokens = [],
            define_ref_count = 2\<rparr>]
     (Some foo_compiler) (Some ''FOO'') (Some ''b'') (Some None) =
   Some ([Some \<lparr>define_name = ''FOO'', define_source_file = None, define_tokens = [],
                define_ref_count = 1\<rparr>,
          Some \<lparr>define_name = ''FOO'', define_source_file = None,
                define_tokens = [(\<lparr>lines = 0, line_bytes = 0\<rparr>, Char_token CHR ''b'')],
                define_ref_count = 1\<rparr>],
         Some \<lparr>compiler_defines = [(Name_of 1, 1)]\<rparr>, Some None, True)"
proof -
  have v: "string_is_valid_identifier char_tokenizer_ops ''FOO''"
    by (simp add: c_identifier_FOO)
  have ff: "first_fatal (reported
      [(\<lparr>lines = 0, line_bytes = 0\<rparr>, Char_token CHR ''b'', []),
       (\<lparr>lines = 0, line_bytes = 1\<rparr>, Eof_token, [] :: char_token diagnostic list)]) = None"
    by (simp add: reported_def first_fatal_def)
  show ?thesis
    unfolding add_define_success_unfold[OF v stream_b ff]
    by (simp add: stored_tokens_def foo_compiler_def g_hash_table_replace_def heap_lookup_def
        keys_readable_def key_matches_def gsk_sl_define_unref_def)
qed

lemma foo_remove:
  "gsk_sl_compiler_remove_define
     [Some \<lparr>define_name = ''FOO'', define_source_file = None, define_tokens = [],
            define_ref_count = 1\<rparr>,
      Some \<lparr>define_name = ''FOO'', define_source_file = None,
            define_tokens = [(\<lparr>lines = 0, line_bytes = 0\<rparr>, Char_token CHR ''b'')],
            define_ref_count = 1\<rparr>]
     (Some \<lparr>compiler_defines = [(Name_of 1, 1)]\<rparr>) (Some ''FOO'') =
   Some ([Some \<lparr>define_name = ''FOO'', define_source_file = None, define_tokens = [],
                define_ref_count = 1\<rparr>, None],
         Some \<lparr>compiler_defines = []\<rparr>)"
  by (simp add: gsk_sl_compiler_remove_define_def g_hash_table_remove_def heap_lookup_def
      keys_readable_def key_matches_def gsk_sl_define_unref_def)

subsection \<open>add_define stores the tokenization\<close>

lemma lookup_view:
  assumes "table_view h2 t = table_view h1 t"
  shows "g_hash_table_lookup h2 t s = g_hash_table_lookup h1 t s"
proof -
  have n: "\<forall>e\<in>set t. read_name h2 (fst e) = read_name h1 (fst e)"
    using assms by (simp add: table_view_def)
  have "keys_readable h2 t = keys_readable h1 t"
    using n by (simp add: keys_readable_def list_all_iff)
  moreover have "find (key_matches h2 s) t = find (key_matches h1 s) t"
    using n by (intro find_cong) (simp_all add: key_matches_def)
  ultimately show ?thesis by (simp add: g_hash_table_lookup_def)
qed

text \<open>
  C2. For a valid identifier and a definition whose tokenization ends and reports no
  fatal error, on well-formed tables, \<^verbatim>\<open>gsk_sl_compiler_add_define\<close> returns TRUE and
  leaves the caller's error slot empty; afterwards the compiler's table maps the name
  to a new define whose tokens are exactly the tokenization without the skipped tokens
  and without the final EOF, each with the location the tokenizer had before reading
  it; and a copy of the table made then maps the name to that same define. An absent
  definition is the text \<open>1\<close> (\<open>define_source\<close>).
\<close>

theorem add_define_stores_tokenization:
  assumes "string_is_valid_identifier T nm"
    and "token_stream T n (tokenizer_new T (define_source defn)) = Some (evs, ts_end)"
    and "first_fatal (reported evs) = None"
    and "tables_inv h ts" and "i < length ts" and "compiler_defines c = ts ! i"
  shows "\<exists>h' c'. gsk_sl_compiler_add_define T h (Some c) (Some nm) defn (Some None) =
            Some (h', Some c', Some None, True)
      \<and> g_hash_table_lookup h' (compiler_defines c') nm = Some (Some (length h))
      \<and> heap_lookup h' (length h) =
            Some \<lparr>define_name = nm, define_source_file = None,
                  define_tokens = stored_tokens T evs, define_ref_count = 1\<rparr>
      \<and> (\<exists>h'' copy. gsk_sl_compiler_copy_defines h' (Some c') = Some (h'', copy)
            \<and> g_hash_table_lookup h'' copy nm = Some (Some (length h))
            \<and> define_body h'' (length h) = Some (nm, stored_tokens T evs))"
proof -
  from add_define_success_result[OF assms(1) _ assms(2-6), of "Some None"]
  obtain h' t' where r:
    "gsk_sl_compiler_add_define T h (Some c) (Some nm) defn (Some None) =
           Some (h', Some (c\<lparr>compiler_defines := t'\<rparr>), Some None, True)"
    "tables_inv h' (ts[i := t'])"
    "g_hash_table_lookup h' t' nm = Some (Some (length h))"
    "heap_lookup h' (length h) =
             Some \<lparr>define_name = nm, define_source_file = None,
                   define_tokens = stored_tokens T evs, define_ref_count = 1\<rparr>"
    by auto
  let ?c' = "c\<lparr>compiler_defines := t'\<rparr>"
  have i': "i < length (ts[i := t'])" and c': "compiler_defines ?c' = ts[i := t'] ! i"
    using assms(5) by simp_all
  from copy_defines_inv[OF r(2) i' c'] obtain h'' where cp:
    "gsk_sl_compiler_copy_defines h' (Some ?c') = Some (h'', t')"
    "\<forall>t. table_view h'' t = table_view h' t"
    "\<forall>b. heap_lookup h'' b =
        (if b \<in> snd ` set (compiler_defines ?c')
         then map_option (\<lambda>d. d\<lparr>define_ref_count := define_ref_count d + 1\<rparr>) (heap_lookup h' b)
         else heap_lookup h' b)"
    by auto
  have "g_hash_table_lookup h'' t' nm = Some (Some (length h))"
    using lookup_view[of h'' t' h' nm] cp(2) r(3) by simp
  moreover have "define_body h'' (length h) = Some (nm, stored_tokens T evs)"
    using cp(3) r(4) by (simp add: define_body_def)
  ultimately show ?thesis using r(1,3,4) cp(1) by auto
qed

theorem add_define_stores_tokenization_witness:
  "string_is_valid_identifier char_tokenizer_ops ''FOO''
   \<and> token_stream char_tokenizer_ops 4
        (tokenizer_new char_tokenizer_ops (define_source (Some ''a b''))) =
       Some ([(\<lparr>lines = 0, line_bytes = 0\<rparr>, Char_token CHR ''a'', []),
              (\<lparr>lines = 0, line_bytes = 1\<rparr>, Space_token, []),
              (\<lparr>lines = 0, line_bytes = 2\<rparr>, Char_token CHR ''b'', []),
              (\<lparr>lines = 0, line_bytes = 3\<rparr>, Eof_token, [])],
             \<lparr>ct_rest = [], ct_location = \<lparr>lines = 0, line_bytes = 3\<rparr>\<rparr>)
   \<and> tables_inv ([] :: char_token heap) [compiler_defines gsk_sl_compiler_init]
   \<and> (\<exists>h' c'. gsk_sl_compiler_add_define char_tokenizer_ops [] (Some gsk_sl_compiler_init)
                  (Some ''FOO'') (Some ''a b'') (Some None) = Some (h', Some c', Some None, True)
        \<and> g_hash_table_lookup h' (compiler_defines c') ''FOO'' = Some (Some 0)
        \<and> heap_lookup h' 0 =
             Some \<lparr>define_name = ''FOO'', define_source_file = None,
                   define_tokens = [(\<lparr>lines = 0, line_bytes = 0\<rparr>, Char_token CHR ''a''),
                                    (\<lparr>lines = 0, line_bytes = 2\<rparr>, Char_token CHR ''b'')],
                   define_ref_count = 1\<rparr>
        \<and> (\<exists>h'' copy. gsk_sl_compiler_copy_defines h' (Some c') = Some (h'', copy)
              \<and> g_hash_table_lookup h'' copy ''FOO'' = Some (Some 0)
              \<and> define_body h'' 0 =
                   Some (''FOO'', [(\<lparr>lines = 0, line_bytes = 0\<rparr>, Char_token CHR ''a''),
                                   (\<lparr>lines = 0, line_bytes = 2\<rparr>, Char_token CHR ''b'')])))"
proof -
  let ?evs = "[(\<lparr>lines = 0, line_bytes = 0\<rparr>, Char_token CHR ''a'', []),
              (\<lparr>lines = 0, line_bytes = 1\<rparr>, Space_token, []),
              (\<lparr>lines = 0, line_bytes = 2\<rparr>, Char_token CHR ''b'', []),
              (\<lparr>lines = 0, line_bytes = 3\<rparr>, Eof_token, [])]
             :: (location \<times> char_token \<times> char_token diagnostic list) list"
  have v: "string_is_valid_identifier char_tokenizer_ops ''FOO''"
    by (simp add: c_identifier_FOO)
  have ff: "first_fatal (reported ?evs) = None" by (simp add: reported_def first_fatal_def)
  have inv: "tables_inv ([] :: char_token heap) [compiler_defines gsk_sl_compiler_init]"
    by (simp add: tables_inv_def table_ok_def gsk_sl_compiler_init_def)
  have i: "0 < length [compiler_defines gsk_sl_compiler_init]" by simp
  have c: "compiler_defines gsk_sl_compiler_init = [compiler_defines gsk_sl_compiler_init] ! 0" by simp
  have st: "stored_tokens char_tokenizer_ops ?evs =
      [(\<lparr>lines = 0, line_bytes = 0\<rparr>, Char_token CHR ''a''),
       (\<lparr>lines = 0, line_bytes = 2\<rparr>, Char_token CHR ''b'')]"
    by (simp add: stored_tokens_def)
  from add_define_stores_tokenization[OF v stream_a_b ff inv i c]
  show ?thesis using v stream_a_b inv unfolding st by simp
qed

subsection \<open>add_define on a fatal tokenizer error\<close>

lemma word_succ_nonzero: "(x::64 word) \<noteq> - 1 \<Longrightarrow> 1 + x \<noteq> 0"
  by (metis add.commute add_eq_0_iff2 add.inverse_inverse)

lemma unat_succ: "(x::64 word) \<noteq> - 1 \<Longrightarrow> unat (x + 1) = unat x + 1"
  using unatSuc[of x] word_succ_nonzero[of x] by (simp add: add.commute)

text \<open>
  C3. For a valid identifier and a definition whose tokenization reports a fatal error,
  \<^verbatim>\<open>gsk_sl_compiler_add_define\<close> returns FALSE; the define it was building is freed (its
  address holds nothing, and every other address holds what it held); the compiler,
  hence its table, is as before; and the caller's empty slot receives the first fatal
  error reported, its message prefixed by the line plus one in width 3, a colon, the
  byte column in width 2, a colon and a space. Later fatal errors and all non-fatal
  ones do not show. The line plus one is computed in \<^verbatim>\<open>size_t\<close>: it is the line plus
  one unless the line is the largest \<^verbatim>\<open>size_t\<close>.
\<close>

theorem add_define_fatal_error:
  assumes "string_is_valid_identifier T nm"
    and "token_stream T n (tokenizer_new T (define_source defn)) = Some (evs, ts_end)"
    and "first_fatal (reported evs) = Some (fatal, location, token, err)"
  shows "gsk_sl_compiler_add_define T h (Some c) (Some nm) defn (Some None) =
           Some (h @ [None], Some c,
                 Some (Some (err\<lparr>error_message :=
                    printf_zu 3 (lines location + 1) @ '':'' @ printf_zu 2 (line_bytes location)
                      @ '': '' @ error_message err\<rparr>)),
                 False)
       \<and> (\<forall>a. heap_lookup (h @ [None]) a = heap_lookup h a)
       \<and> (lines location \<noteq> - 1 \<longrightarrow> unat (lines location + 1) = unat (lines location) + 1)"
proof -
  have "lines location \<noteq> - 1 \<Longrightarrow> unat (lines location + 1) = unat (lines location) + 1"
    by (rule unat_succ)
  moreover have "\<forall>a. heap_lookup (h @ [None]) a = heap_lookup h a"
    by (auto simp: heap_lookup_def nth_append)
  ultimately show ?thesis
    using add_define_fatal_result[OF assms(1) _ assms(2,3), of "Some None" h c]
    by (simp add: g_propagate_error_def location_tag_def)
qed

theorem add_define_fatal_error_witness:
  "string_is_valid_identifier char_tokenizer_ops ''FOO''
   \<and> first_fatal (reported
        [(\<lparr>lines = 0, line_bytes = 0\<rparr>, Char_token CHR ''a'', []),
         (\<lparr>lines = 0, line_bytes = 1\<rparr>, Error_token,
            [(True, \<lparr>lines = 0, line_bytes = 1\<rparr>, Error_token,
              \<lparr>error_domain = gsk_sl_compiler_error_quark, error_code = 0,
               error_message = ''unexpected character''\<rparr>)]),
         (\<lparr>lines = 0, line_bytes = 2\<rparr>, Char_token CHR ''b'', []),
         (\<lparr>lines = 0, line_bytes = 3\<rparr>, Eof_token, [])]) =
       Some (True, \<lparr>lines = 0, line_bytes = 1\<rparr>, Error_token,
              \<lparr>error_domain = gsk_sl_compiler_error_quark, error_code = 0,
               error_message = ''unexpected character''\<rparr>)
   \<and> gsk_sl_compiler_add_define char_tokenizer_ops [] (Some gsk_sl_compiler_init)
        (Some ''FOO'') (Some ''a$b'') (Some None) =
       Some ([None], Some gsk_sl_compiler_init,
             Some (Some \<lparr>error_domain = gsk_sl_compiler_error_quark, error_code = 0,
                         error_message = ''  1: 1: unexpected character''\<rparr>),
             False)"
proof -
  let ?evs = "[(\<lparr>lines = 0, line_bytes = 0\<rparr>, Char_token CHR ''a'', []),
         (\<lparr>lines = 0, line_bytes = 1\<rparr>, Error_token,
            [(True, \<lparr>lines = 0, line_bytes = 1\<rparr>, Error_token,
              \<lparr>error_domain = gsk_sl_compiler_error_quark, error_code = 0,
               error_message = ''unexpected character''\<rparr>)]),
         (\<lparr>lines = 0, line_bytes = 2\<rparr>, Char_token CHR ''b'', []),
         (\<lparr>lines = 0, line_bytes = 3\<rparr>, Eof_token, [])]
        :: (location \<times> char_token \<times> char_token diagnostic list) list"
  have v: "string_is_valid_identifier char_tokenizer_ops ''FOO''"
    by (simp add: c_identifier_FOO)
  have ff: "first_fatal (reported ?evs) =
       Some (True, \<lparr>lines = 0, line_bytes = 1\<rparr>, Error_token,
              \<lparr>error_domain = gsk_sl_compiler_error_quark, error_code = 0,
               error_message = ''unexpected character''\<rparr>)"
    by (simp add: reported_def first_fatal_def)
  from add_define_fatal_error[OF v stream_a_dollar_b ff, of "[]" gsk_sl_compiler_init]
  show ?thesis using v ff by (simp add: printf_zu_3_1 printf_zu_2_1)
qed

subsection \<open>The read loop and fatal diagnostics\<close>

text \<open>
  C9, as claimed: after the first fatal diagnostic no further token is read or
  appended. It fails on the definition \<open>$a\<close>: the first read reports the fatal
  error, and the loop still reads to the end of the text and appends \<open>a\<close>.
\<close>

theorem read_loop_stops_at_fatal_counterexample:
  "tokenizer_read_token char_tokenizer_ops
     (tokenizer_new char_tokenizer_ops (define_source (Some ''$a''))) =
     (\<lparr>ct_rest = ''a'', ct_location = \<lparr>lines = 0, line_bytes = 1\<rparr>\<rparr>, Error_token,
      [(True, \<lparr>lines = 0, line_bytes = 0\<rparr>, Error_token,
        \<lparr>error_domain = gsk_sl_compiler_error_quark, error_code = 0,
         error_message = ''unexpected character''\<rparr>)])
   \<and> read_define_tokens char_tokenizer_ops
       (tokenizer_new char_tokenizer_ops (define_source (Some ''$a''))) None
       [Some \<lparr>define_name = ''FOO'', define_source_file = None, define_tokens = [],
              define_ref_count = 1\<rparr>] 0 =
     Some (\<lparr>ct_rest = [], ct_location = \<lparr>lines = 0, line_bytes = 2\<rparr>\<rparr>,
           Some \<lparr>error_domain = gsk_sl_compiler_error_quark, error_code = 0,
                 error_message = ''  1: 0: unexpected character''\<rparr>,
           [Some \<lparr>define_name = ''FOO'', define_source_file = None,
                  define_tokens = [(\<lparr>lines = 0, line_bytes = 1\<rparr>, Char_token CHR ''a'')],
                  define_ref_count = 1\<rparr>])"
proof -
  have lk: "heap_lookup [Some \<lparr>define_name = ''FOO'', define_source_file = None,
       define_tokens = ([] :: (location \<times> char_token) list), define_ref_count = 1\<rparr>] 0 =
     Some \<lparr>define_name = ''FOO'', define_source_file = None, define_tokens = [],
       define_ref_count = 1\<rparr>"
    by (simp add: heap_lookup_def)
  have rd: "tokenizer_read_token char_tokenizer_ops
     (tokenizer_new char_tokenizer_ops (define_source (Some ''$a''))) =
     (\<lparr>ct_rest = ''a'', ct_location = \<lparr>lines = 0, line_bytes = 1\<rparr>\<rparr>, Error_token,
      [(True, \<lparr>lines = 0, line_bytes = 0\<rparr>, Error_token,
        \<lparr>error_domain = gsk_sl_compiler_error_quark, error_code = 0,
         error_message = ''unexpected character''\<rparr>)])"
    by (simp add: define_source_def gsk_code_source_new_for_bytes_def char_tokenizer_read_def Let_def)
  show ?thesis
    using read_define_tokens_stream[OF stream_dollar_a lk, of None] rd
    by (simp add: run_error_func_None reported_def first_fatal_def stored_tokens_def
        location_tag_def printf_zu_3_1 printf_zu_2_0)
qed

text \<open>
  C9, amended. A fatal diagnostic does not end the loop: whatever is reported, the
  loop reads the tokenizer up to the first unskipped EOF and appends every unskipped
  token before it to the define being built; of the diagnostics it keeps the first
  fatal one, with its location tag.
\<close>

theorem read_loop_runs_to_eof:
  assumes "token_stream T n ts = Some (evs, ts_end)" and "heap_lookup h a = Some d"
  shows "read_define_tokens T ts None h a =
     Some (ts_end,
           map_option (\<lambda>(fatal, location, token, error).
               error\<lparr>error_message := location_tag location @ error_message error\<rparr>)
             (first_fatal (reported evs)),
           h[a := Some (d\<lparr>define_tokens := define_tokens d @ stored_tokens T evs\<rparr>)])"
  using read_define_tokens_stream[OF assms, of None] by (simp add: run_error_func_None)

theorem read_loop_runs_to_eof_witness:
  "token_stream char_tokenizer_ops 4
     (tokenizer_new char_tokenizer_ops (define_source (Some ''?$a''))) =
     Some ([(\<lparr>lines = 0, line_bytes = 0\<rparr>, Char_token CHR ''?'',
               [(False, \<lparr>lines = 0, line_bytes = 0\<rparr>, Char_token CHR ''?'',
                 \<lparr>error_domain = gsk_sl_compiler_warning_quark, error_code = 0,
                  error_message = ''suspicious character''\<rparr>)]),
            (\<lparr>lines = 0, line_bytes = 1\<rparr>, Error_token,
               [(True, \<lparr>lines = 0, line_bytes = 1\<rparr>, Error_token,
                 \<lparr>error_domain = gsk_sl_compiler_error_quark, error_code = 0,
                  error_message = ''unexpected character''\<rparr>)]),
            (\<lparr>lines = 0, line_bytes = 2\<rparr>, Char_token CHR ''a'', []),
            (\<lparr>lines = 0, line_bytes = 3\<rparr>, Eof_token, [])],
           \<lparr>ct_rest = [], ct_location = \<lparr>lines = 0, line_bytes = 3\<rparr>\<rparr>)
   \<and> heap_lookup [Some \<lparr>define_name = ''FOO'', define_source_file = None,
         define_tokens = ([] :: (location \<times> char_token) list), define_ref_count = 1\<rparr>] 0 =
       Some \<lparr>define_name = ''FOO'', define_source_file = None, define_tokens = [],
         define_ref_count = 1\<rparr>
   \<and> read_define_tokens char_tokenizer_ops
       (tokenizer_new char_tokenizer_ops (define_source (Some ''?$a''))) None
       [Some \<lparr>define_name = ''FOO'', define_source_file = None, define_tokens = [],
              define_ref_count = 1\<rparr>] 0 =
     Some (\<lparr>ct_rest = [], ct_location = \<lparr>lines = 0, line_bytes = 3\<rparr>\<rparr>,
           Some \<lparr>error_domain = gsk_sl_compiler_error_quark, error_code = 0,
                 error_message = ''  1: 1: unexpected character''\<rparr>,
           [Some \<lparr>define_name = ''FOO'', define_source_file = None,
                  define_tokens = [(\<lparr>lines = 0, line_bytes = 0\<rparr>, Char_token CHR ''?''),
                                   (\<lparr>lines = 0, line_bytes = 2\<rparr>, Char_token CHR ''a'')],
                  define_ref_count = 1\<rparr>])"
proof -
  have lk: "heap_lookup [Some \<lparr>define_name = ''FOO'', define_source_file = None,
       define_tokens = ([] :: (location \<times> char_token) list), define_ref_count = 1\<rparr>] 0 =
     Some \<lparr>define_name = ''FOO'', define_source_file = None, define_tokens = [],
       define_ref_count = 1\<rparr>"
    by (simp add: heap_lookup_def)
  show ?thesis
    using read_loop_runs_to_eof[OF stream_q_dollar_a lk] stream_q_dollar_a lk
    by (simp add: reported_def first_fatal_def stored_tokens_def
        location_tag_def printf_zu_3_1 printf_zu_2_1)
qed

subsection \<open>Error domains\<close>





subsection \<open>The invariant of the tables\<close>

text \<open>
  C10. On well-formed tables (every key of every table is the name pointer of the
  define it maps to, which is alive): add_define, whenever it returns, remove_define
  and copy_defines each leave all tables well formed, the compiler's and every copy,
  the new copy included; in a well-formed table, looking up the string a stored key
  points to yields the define of that entry, whose name is that string; and the table
  of a new compiler is well formed.
\<close>

theorem defines_tables_invariant:
  assumes "tables_inv h ts" and "i < length ts" and "compiler_defines c = ts ! i"
  shows "(\<forall>name defn error h' c' error' r.
            gsk_sl_compiler_add_define T h (Some c) name defn error = Some (h', c', error', r) \<longrightarrow>
            (\<exists>c''. c' = Some c'' \<and> tables_inv h' (ts[i := compiler_defines c''])))
       \<and> (\<forall>name. \<exists>h' c'. gsk_sl_compiler_remove_define h (Some c) name = Some (h', Some c')
              \<and> tables_inv h' (ts[i := compiler_defines c']))
       \<and> (\<exists>h' copy. gsk_sl_compiler_copy_defines h (Some c) = Some (h', copy)
              \<and> tables_inv h' (ts @ [copy]))
       \<and> (\<forall>t\<in>set ts. \<forall>e\<in>set t. \<exists>d.
              fst e = gsk_sl_define_get_name (snd e) \<and> heap_lookup h (snd e) = Some d
              \<and> read_name h (fst e) = Some (define_name d)
              \<and> g_hash_table_lookup h t (define_name d) = Some (Some (snd e)))
       \<and> tables_inv any_heap [compiler_defines gsk_sl_compiler_init]"
proof (intro conjI allI impI ballI)
  fix name defn error h' c' error' r
  assume "gsk_sl_compiler_add_define T h (Some c) name defn error = Some (h', c', error', r)"
  from add_define_step[OF assms this]
  show "\<exists>c''. c' = Some c'' \<and> tables_inv h' (ts[i := compiler_defines c''])" by blast
next
  fix name
  from remove_define_step[OF assms, of name]
  show "\<exists>h' c'. gsk_sl_compiler_remove_define h (Some c) name = Some (h', Some c')
              \<and> tables_inv h' (ts[i := compiler_defines c'])" by blast
next
  from copy_defines_inv[OF assms]
  show "\<exists>h' copy. gsk_sl_compiler_copy_defines h (Some c) = Some (h', copy)
              \<and> tables_inv h' (ts @ [copy])" by blast
next
  fix t e assume t: "t \<in> set ts" and e: "e \<in> set t"
  from tables_inv_entry[OF assms(1) t e] obtain d where d: "fst e = Name_of (snd e)"
    "heap_lookup h (snd e) = Some d" "read_name h (fst e) = Some (define_name d)" by blast
  have "distinct (map (\<lambda>e. read_name h (fst e)) t)" using assms(1) t unfolding tables_inv_iff by blast
  from lookup_found[OF tables_inv_keys_readable[OF assms(1) t] this e d(3)] d
  show "\<exists>d. fst e = gsk_sl_define_get_name (snd e) \<and> heap_lookup h (snd e) = Some d
              \<and> read_name h (fst e) = Some (define_name d)
              \<and> g_hash_table_lookup h t (define_name d) = Some (Some (snd e))"
    by (simp add: gsk_sl_define_get_name_def)
next
  show "tables_inv any_heap [compiler_defines gsk_sl_compiler_init]"
    by (simp add: tables_inv_def table_ok_def gsk_sl_compiler_init_def)
qed

theorem defines_tables_invariant_witness:
  "tables_inv foo_heap [compiler_defines foo_compiler]
   \<and> (\<exists>h' c'. gsk_sl_compiler_remove_define foo_heap (Some foo_compiler) (Some ''FOO'') =
          Some (h', Some c') \<and> tables_inv h' [compiler_defines c'])
   \<and> (\<exists>h' copy. gsk_sl_compiler_copy_defines foo_heap (Some foo_compiler) = Some (h', copy)
          \<and> tables_inv h' [compiler_defines foo_compiler, copy])
   \<and> (\<exists>d. heap_lookup foo_heap 0 = Some d
          \<and> read_name foo_heap (Name_of 0) = Some (define_name d)
          \<and> g_hash_table_lookup foo_heap (compiler_defines foo_compiler) (define_name d) = Some (Some 0))"
proof -
  have i: "0 < length [compiler_defines foo_compiler]" by simp
  have c: "compiler_defines foo_compiler = [compiler_defines foo_compiler] ! 0" by simp
  note t = defines_tables_invariant[OF foo_inv i c, where any_heap = foo_heap and T = char_tokenizer_ops]
  have r: "\<exists>h' c'. gsk_sl_compiler_remove_define foo_heap (Some foo_compiler) (Some ''FOO'') =
          Some (h', Some c') \<and> tables_inv h' [compiler_defines c']"
    using t[THEN conjunct2, THEN conjunct1, rule_format, of "Some ''FOO''"] by simp
  have cp: "\<exists>h' copy. gsk_sl_compiler_copy_defines foo_heap (Some foo_compiler) = Some (h', copy)
          \<and> tables_inv h' [compiler_defines foo_compiler, copy]"
    using t[THEN conjunct2, THEN conjunct2, THEN conjunct1] by simp
  have e: "(Name_of 0, 0) \<in> set (compiler_defines foo_compiler)" by (simp add: foo_compiler_def)
  have l: "\<exists>d. heap_lookup foo_heap 0 = Some d
          \<and> read_name foo_heap (Name_of 0) = Some (define_name d)
          \<and> g_hash_table_lookup foo_heap (compiler_defines foo_compiler) (define_name d) = Some (Some 0)"
    using t[THEN conjunct2, THEN conjunct2, THEN conjunct2, THEN conjunct1, rule_format,
        of "compiler_defines foo_compiler" "(Name_of 0, 0)"] e
    by (simp add: gsk_sl_define_get_name_def)
  from foo_inv r cp l show ?thesis by blast
qed

subsection \<open>Independence of a copy\<close>

lemma apply_mutation_step:
  assumes inv: "tables_inv h ts" and i: "i < length ts" and c: "compiler_defines c = ts ! i"
    and res: "apply_mutation T h (Some c) m = Some (h', c')"
  shows "\<exists>c''. c' = Some c'' \<and> tables_inv h' (ts[i := compiler_defines c''])
         \<and> (\<forall>j. j < length ts \<longrightarrow> j \<noteq> i \<longrightarrow> table_view h' (ts ! j) = table_view h (ts ! j))"
proof (cases m)
  case (Add_define name defn error)
  with res obtain error' r where
    "gsk_sl_compiler_add_define T h (Some c) name defn error = Some (h', c', error', r)"
    by auto
  from add_define_step[OF inv i c this] show ?thesis .
next
  case (Remove_define name)
  from remove_define_step[OF inv i c, of name] res Remove_define show ?thesis by auto
qed

lemma apply_mutations_steps:
  assumes "tables_inv h ts" "i < length ts" "compiler_defines c = ts ! i"
    and "apply_mutations T h (Some c) ms = Some (h', c')"
  shows "\<exists>c''. c' = Some c'' \<and> tables_inv h' (ts[i := compiler_defines c''])
         \<and> (\<forall>j. j < length ts \<longrightarrow> j \<noteq> i \<longrightarrow> table_view h' (ts ! j) = table_view h (ts ! j))"
  using assms
proof (induction ms arbitrary: h c ts)
  case Nil
  then show ?case by (auto simp: list_update_same_conv)
next
  case (Cons m ms)
  from Cons.prems(4) obtain h1 c1 where m: "apply_mutation T h (Some c) m = Some (h1, c1)"
    and ms: "apply_mutations T h1 c1 ms = Some (h', c')"
    by (auto split: Option.bind_splits)
  from apply_mutation_step[OF Cons.prems(1-3) m] obtain c1' where c1: "c1 = Some c1'"
    "tables_inv h1 (ts[i := compiler_defines c1'])"
    "\<forall>j. j < length ts \<longrightarrow> j \<noteq> i \<longrightarrow> table_view h1 (ts ! j) = table_view h (ts ! j)" by blast
  let ?ts1 = "ts[i := compiler_defines c1']"
  have i1: "i < length ?ts1" using Cons.prems(2) by simp
  have c1i: "compiler_defines c1' = ?ts1 ! i" using Cons.prems(2) by simp
  from Cons.IH[OF c1(2) i1 c1i ms[unfolded c1(1)]] obtain c'' where
    r: "c' = Some c''" "tables_inv h' (?ts1[i := compiler_defines c''])"
    "\<forall>j. j < length ?ts1 \<longrightarrow> j \<noteq> i \<longrightarrow> table_view h' (?ts1 ! j) = table_view h1 (?ts1 ! j)" by blast
  have "\<forall>j. j < length ts \<longrightarrow> j \<noteq> i \<longrightarrow> table_view h' (ts ! j) = table_view h (ts ! j)"
    using r(3) c1(3) by simp
  with r(1,2) show ?case by simp
qed

text \<open>
  C4. On well-formed tables, copy_defines returns the entries of the compiler's table
  themselves (the same key pointers and the same defines), every define in it with one
  more reference and the same name and tokens. The copy and the table are then two
  tables with equal entries: after any sequence of add_define and remove_define calls
  on a compiler that holds one of them, the other shows what it showed, for every
  entry the same key string, name and tokens, and every lookup in it gives what it
  gave. So a name redefined or removed in one is still mapped to the old define, with
  its old tokens, in the other.
\<close>

theorem copy_defines_independent:
  assumes "tables_inv h ts" and "i < length ts" and "compiler_defines c = ts ! i"
  shows "\<exists>h1. gsk_sl_compiler_copy_defines h (Some c) = Some (h1, compiler_defines c)
       \<and> table_view h1 (compiler_defines c) = table_view h (compiler_defines c)
       \<and> (\<forall>e\<in>set (compiler_defines c). \<exists>d. heap_lookup h (snd e) = Some d
              \<and> heap_lookup h1 (snd e) = Some (d\<lparr>define_ref_count := define_ref_count d + 1\<rparr>))
       \<and> (\<forall>ms h2 c2. apply_mutations T h1 (Some c) ms = Some (h2, c2) \<longrightarrow>
              table_view h2 (compiler_defines c) = table_view h1 (compiler_defines c)
              \<and> (\<forall>s. g_hash_table_lookup h2 (compiler_defines c) s =
                       g_hash_table_lookup h1 (compiler_defines c) s))"
proof -
  from copy_defines_inv[OF assms] obtain h1 where cp:
    "gsk_sl_compiler_copy_defines h (Some c) = Some (h1, compiler_defines c)"
    "tables_inv h1 (ts @ [compiler_defines c])"
    "\<forall>t. table_view h1 t = table_view h t"
    "\<forall>b. heap_lookup h1 b =
        (if b \<in> snd ` set (compiler_defines c)
         then map_option (\<lambda>d. d\<lparr>define_ref_count := define_ref_count d + 1\<rparr>) (heap_lookup h b)
         else heap_lookup h b)"
    by blast
  let ?ts = "ts @ [compiler_defines c]"
  have mem: "compiler_defines c \<in> set ts" using assms(2,3) by (metis nth_mem)
  have refs: "\<forall>e\<in>set (compiler_defines c). \<exists>d. heap_lookup h (snd e) = Some d
              \<and> heap_lookup h1 (snd e) = Some (d\<lparr>define_ref_count := define_ref_count d + 1\<rparr>)"
  proof
    fix e assume e: "e \<in> set (compiler_defines c)"
    from tables_inv_entry[OF assms(1) mem e] obtain d where "heap_lookup h (snd e) = Some d" by blast
    then show "\<exists>d. heap_lookup h (snd e) = Some d
              \<and> heap_lookup h1 (snd e) = Some (d\<lparr>define_ref_count := define_ref_count d + 1\<rparr>)"
      using cp(4) e by auto
  qed
  have indep: "table_view h2 (compiler_defines c) = table_view h1 (compiler_defines c)
              \<and> (\<forall>s. g_hash_table_lookup h2 (compiler_defines c) s =
                       g_hash_table_lookup h1 (compiler_defines c) s)"
    if m: "apply_mutations T h1 (Some c) ms = Some (h2, c2)" for ms h2 c2
  proof -
    have i': "i < length ?ts" using assms(2) by simp
    have ci: "compiler_defines c = ?ts ! i" using assms(2,3) by (simp add: nth_append)
    from apply_mutations_steps[OF cp(2) i' ci m]
    have "\<forall>j. j < length ?ts \<longrightarrow> j \<noteq> i \<longrightarrow> table_view h2 (?ts ! j) = table_view h1 (?ts ! j)" by blast
    from this[rule_format, of "length ts"] assms(2)
    have v: "table_view h2 (compiler_defines c) = table_view h1 (compiler_defines c)" by simp
    with lookup_view[OF v] show ?thesis by blast
  qed
  from cp(1,3) refs indep show ?thesis by blast
qed

theorem copy_defines_independent_witness:
  "tables_inv foo_heap [compiler_defines foo_compiler]
   \<and> gsk_sl_compiler_copy_defines foo_heap (Some foo_compiler) =
       Some ([Some \<lparr>define_name = ''FOO'', define_source_file = None, define_tokens = [],
                    define_ref_count = 2\<rparr>],
             compiler_defines foo_compiler)
   \<and> apply_mutations char_tokenizer_ops
        [Some \<lparr>define_name = ''FOO'', define_source_file = None, define_tokens = [],
               define_ref_count = 2\<rparr>]
        (Some foo_compiler)
        [Add_define (Some ''FOO'') (Some ''b'') (Some None), Remove_define (Some ''FOO'')] =
       Some ([Some \<lparr>define_name = ''FOO'', define_source_file = None, define_tokens = [],
                    define_ref_count = 1\<rparr>, None],
             Some \<lparr>compiler_defines = []\<rparr>)
   \<and> table_view
        [Some \<lparr>define_name = ''FOO'', define_source_file = None,
               define_tokens = ([] :: (location \<times> char_token) list),
               define_ref_count = 1\<rparr>, None]
        (compiler_defines foo_compiler) =
       [(Some ''FOO'', Some (''FOO'', []))]
   \<and> g_hash_table_lookup
        [Some \<lparr>define_name = ''FOO'', define_source_file = None,
               define_tokens = ([] :: (location \<times> char_token) list),
               define_ref_count = 1\<rparr>, None]
        (compiler_defines foo_compiler) ''FOO'' = Some (Some 0)"
proof -
  let ?h1 = "[Some \<lparr>define_name = ''FOO'', define_source_file = None,
                    define_tokens = ([] :: (location \<times> char_token) list),
                    define_ref_count = 2\<rparr>]"
  let ?h2 = "[Some \<lparr>define_name = ''FOO'', define_source_file = None,
               define_tokens = ([] :: (location \<times> char_token) list),
               define_ref_count = 1\<rparr>, None]"
  let ?ms = "[Add_define (Some ''FOO'') (Some ''b'') (Some None), Remove_define (Some ''FOO'')]"
  have i: "0 < length [compiler_defines foo_compiler]" by simp
  have c: "compiler_defines foo_compiler = [compiler_defines foo_compiler] ! 0" by simp
  have cp: "gsk_sl_compiler_copy_defines foo_heap (Some foo_compiler) =
      Some (?h1, compiler_defines foo_compiler)"
    using foo_copy by (simp add: foo_compiler_def)
  have ms: "apply_mutations char_tokenizer_ops ?h1 (Some foo_compiler) ?ms =
      Some (?h2, Some \<lparr>compiler_defines = []\<rparr>)"
    by (simp add: foo_redefine foo_remove[simplified])
  from copy_defines_independent[OF foo_inv i c, where T = char_tokenizer_ops] cp
  have ind: "\<forall>ms h2 c2. apply_mutations char_tokenizer_ops ?h1 (Some foo_compiler) ms = Some (h2, c2) \<longrightarrow>
              table_view h2 (compiler_defines foo_compiler) =
                table_view ?h1 (compiler_defines foo_compiler)
              \<and> (\<forall>s. g_hash_table_lookup h2 (compiler_defines foo_compiler) s =
                       g_hash_table_lookup ?h1 (compiler_defines foo_compiler) s)"
    by auto
  from ind[rule_format, OF ms]
  have v: "table_view ?h2 (compiler_defines foo_compiler) =
             table_view ?h1 (compiler_defines foo_compiler)"
    and l: "g_hash_table_lookup ?h2 (compiler_defines foo_compiler) ''FOO'' =
              g_hash_table_lookup ?h1 (compiler_defines foo_compiler) ''FOO''"
    by auto
  have v1: "table_view ?h1 (compiler_defines foo_compiler) = [(Some ''FOO'', Some (''FOO'', []))]"
    by (simp add: table_view_def define_body_def heap_lookup_def foo_compiler_def)
  have l1: "g_hash_table_lookup ?h1 (compiler_defines foo_compiler) ''FOO'' = Some (Some 0)"
    by (simp add: g_hash_table_lookup_def keys_readable_def key_matches_def heap_lookup_def
        foo_compiler_def)
  from foo_inv cp ms v l v1 l1 show ?thesis by simp
qed

end
